theory Spec2Isabelle
  imports Main "HOL-Library.Multiset"
begin

section \<open>Python list operations\<close>

text \<open>
  The source indexes Python lists.  An index \<open>i\<close> with \<open>- len \<le> i < 0\<close> counts from
  the end, and any index outside \<open>[- len, len)\<close> raises \<open>IndexError\<close>.
\<close>

datatype py_error = IndexError

definition norm_index :: "'a list \<Rightarrow> int \<Rightarrow> int option" where
  "norm_index xs i =
     (if 0 \<le> i then (if i < int (length xs) then Some i else None)
      else (if - int (length xs) \<le> i then Some (int (length xs) + i) else None))"

definition py_get :: "'a list \<Rightarrow> int \<Rightarrow> py_error + 'a" where
  "py_get xs i = (case norm_index xs i of None \<Rightarrow> Inl IndexError | Some j \<Rightarrow> Inr (xs ! nat j))"

definition py_set :: "'a list \<Rightarrow> int \<Rightarrow> 'a \<Rightarrow> py_error + 'a list" where
  "py_set xs i v =
     (case norm_index xs i of None \<Rightarrow> Inl IndexError | Some j \<Rightarrow> Inr (xs[nat j := v]))"

definition py_del :: "'a list \<Rightarrow> int \<Rightarrow> py_error + 'a list" where
  "py_del xs i =
     (case norm_index xs i of None \<Rightarrow> Inl IndexError
      | Some j \<Rightarrow> Inr (take (nat j) xs @ drop (Suc (nat j)) xs))"

section \<open>Pieces (block\_drop.py)\<close>

text \<open>
  \<open>piece_type\<close> is one of the seven keys of \<open>SHAPES\<close>; the constructor raises
  \<open>KeyError\<close> on any other string, so a piece only exists for these seven.
\<close>

datatype kind = Piece_I | Piece_O | Piece_T | Piece_S | Piece_Z | Piece_J | Piece_L

fun SHAPES :: "kind \<Rightarrow> string list list" where
  "SHAPES Piece_I =
     [[''....'', ''IIII'', ''....'', ''....''],
      [''..I.'', ''..I.'', ''..I.'', ''..I.'']]"
| "SHAPES Piece_O =
     [[''OO'', ''OO'']]"
| "SHAPES Piece_T =
     [[''...'', ''TTT'', ''.T.''],
      [''...'', ''.T.'', ''TT.'', ''.T.''],
      [''...'', ''.T.'', ''TTT'', ''...''],
      [''...'', ''.T.'', ''.TT'', ''.T.'']]"
| "SHAPES Piece_S =
     [[''...'', ''.SS'', ''SS.''],
      [''...'', ''.S.'', ''.SS'', ''..S'']]"
| "SHAPES Piece_Z =
     [[''...'', ''ZZ.'', ''.ZZ''],
      [''...'', ''..Z'', ''.ZZ'', ''.Z.'']]"
| "SHAPES Piece_J =
     [[''...'', ''JJJ'', ''..J''],
      [''...'', ''.J.'', ''.J.'', ''JJ.''],
      [''...'', ''J..'', ''JJJ'', ''...''],
      [''...'', ''.JJ'', ''.J.'', ''.J.'']]"
| "SHAPES Piece_L =
     [[''...'', ''LLL'', ''L..''],
      [''...'', ''LL.'', ''.L.'', ''.L.''],
      [''...'', ''..L'', ''LLL'', ''...''],
      [''...'', ''.L.'', ''.L.'', ''.LL'']]"

text \<open>
  A \<open>BlockDrop\<close> object.  Its field \<open>shapes\<close> is set once, to \<open>SHAPES[piece_type]\<close>,
  and never assigned again, so it is the function \<open>shapes\<close> below.  The coordinates are
  the fields \<open>x\<close> and \<open>y\<close> of the source.
\<close>

record piece =
  piece_type :: kind
  px :: int
  py :: int
  rotation :: int

definition BlockDrop :: "kind \<Rightarrow> int \<Rightarrow> int \<Rightarrow> piece" where
  "BlockDrop k x0 y0 = \<lparr>piece_type = k, px = x0, py = y0, rotation = 0\<rparr>"

definition shapes :: "piece \<Rightarrow> string list list" where
  "shapes p = SHAPES (piece_type p)"

text \<open>The index \<open>self.rotation % len(self.shapes)\<close>; Python's \<open>%\<close> with a positive
  divisor is \<open>mod\<close> on \<open>int\<close>.\<close>

definition shape_index :: "piece \<Rightarrow> int" where
  "shape_index p = rotation p mod int (length (shapes p))"

definition current_shape :: "piece \<Rightarrow> string list" where
  "current_shape p = shapes p ! nat (shape_index p)"

definition occupied_char :: "char \<Rightarrow> bool" where
  "occupied_char cell = (cell \<noteq> CHR ''.'' \<and> cell \<noteq> CHR '' '')"

definition get_cells :: "piece \<Rightarrow> (int \<times> int) list" where
  "get_cells p =
     concat (map (\<lambda>(row_idx, row).
        map (\<lambda>(col_idx, cell). (px p + int col_idx, py p + int row_idx))
            (filter (\<lambda>(col_idx, cell). occupied_char cell) (enumerate 0 row)))
        (enumerate 0 (current_shape p)))"

definition get_relative_cells :: "piece \<Rightarrow> (int \<times> int) list" where
  "get_relative_cells p =
     concat (map (\<lambda>(row_idx, row).
        map (\<lambda>(col_idx, cell). (int col_idx, int row_idx))
            (filter (\<lambda>(col_idx, cell). occupied_char cell) (enumerate 0 row)))
        (enumerate 0 (current_shape p)))"

definition rotate_clockwise :: "piece \<Rightarrow> piece" where
  "rotate_clockwise p = p\<lparr>rotation := (rotation p + 1) mod int (length (shapes p))\<rparr>"

definition rotate_counterclockwise :: "piece \<Rightarrow> piece" where
  "rotate_counterclockwise p = p\<lparr>rotation := (rotation p - 1) mod int (length (shapes p))\<rparr>"

definition move :: "int \<Rightarrow> int \<Rightarrow> piece \<Rightarrow> piece" where
  "move dx dy p = p\<lparr>px := px p + dx, py := py p + dy\<rparr>"

definition copy :: "piece \<Rightarrow> piece" where
  "copy p = (BlockDrop (piece_type p) (px p) (py p))\<lparr>rotation := rotation p\<rparr>"

text \<open>A sequence of rotation calls: \<open>True\<close> is \<open>rotate_clockwise\<close>, \<open>False\<close> is
  \<open>rotate_counterclockwise\<close>.\<close>

fun rotations :: "bool list \<Rightarrow> piece \<Rightarrow> piece" where
  "rotations [] p = p"
| "rotations (cw # rs) p =
     rotations rs (if cw then rotate_clockwise p else rotate_counterclockwise p)"

subsection \<open>Facts about pieces\<close>

lemma length_SHAPES_pos: "0 < length (SHAPES k)"
  by (cases k) simp_all

lemma length_shapes_pos: "0 < length (shapes p)"
  unfolding shapes_def by (rule length_SHAPES_pos)

lemma copy_id: "copy p = p"
  by (simp add: copy_def BlockDrop_def)

lemma shapes_rotate [simp]:
  "shapes (rotate_clockwise p) = shapes p"
  "shapes (rotate_counterclockwise p) = shapes p"
  by (simp_all add: shapes_def rotate_clockwise_def rotate_counterclockwise_def)

lemma piece_type_rotate [simp]:
  "piece_type (rotate_clockwise p) = piece_type p"
  "piece_type (rotate_counterclockwise p) = piece_type p"
  by (simp_all add: rotate_clockwise_def rotate_counterclockwise_def)

lemma piece_type_rotations [simp]: "piece_type (rotations rs p) = piece_type p"
  by (induction rs arbitrary: p) simp_all

lemma shapes_rotations [simp]: "shapes (rotations rs p) = shapes p"
  by (simp add: shapes_def)

lemma shape_index_range: "0 \<le> shape_index p \<and> shape_index p < int (length (shapes p))"
  using length_shapes_pos [of p] by (simp add: shape_index_def)

text \<open>
  Claim C9.  After any finite sequence of clockwise and counterclockwise rotations of any
  piece (whatever its rotation counter was before), the rotation-state list is not empty,
  the index \<open>rotation mod len(shapes)\<close> lies in \<open>[0, len(shapes))\<close>, and the Python
  lookup at that index returns a rotation state of the kind without raising.
\<close>

theorem rotation_index_valid:
  "shapes (rotations rs p) \<noteq> []
   \<and> 0 \<le> shape_index (rotations rs p)
   \<and> shape_index (rotations rs p) < int (length (shapes (rotations rs p)))
   \<and> py_get (shapes (rotations rs p)) (shape_index (rotations rs p))
       = Inr (current_shape (rotations rs p))
   \<and> current_shape (rotations rs p) \<in> set (SHAPES (piece_type p))"
proof -
  let ?q = "rotations rs p"
  have r: "0 \<le> shape_index ?q" "shape_index ?q < int (length (shapes ?q))"
    using shape_index_range [of ?q] by simp_all
  have ne: "shapes ?q \<noteq> []"
    using length_shapes_pos [of ?q] by simp
  have g: "py_get (shapes ?q) (shape_index ?q) = Inr (current_shape ?q)"
    using r by (simp add: py_get_def norm_index_def current_shape_def)
  have "nat (shape_index ?q) < length (shapes ?q)"
    using r by simp
  then have "current_shape ?q \<in> set (shapes ?q)"
    unfolding current_shape_def by (rule nth_mem)
  then have m: "current_shape ?q \<in> set (SHAPES (piece_type p))"
    by (simp add: shapes_def)
  from ne r g m show ?thesis by simp
qed

section \<open>The board (board.py)\<close>

definition BOARD_WIDTH :: int where
  "BOARD_WIDTH = 10"

definition BOARD_HEIGHT :: int where
  "BOARD_HEIGHT = 20"

text \<open>A grid cell holds \<open>None\<close> (empty) or the kind of the piece locked there.  The grid
  is a list of rows, indexed \<open>grid[y][x]\<close>.\<close>

record board =
  width :: int
  height :: int
  grid :: "kind option list list"
  cleared_lines :: int

definition Board :: "int \<Rightarrow> int \<Rightarrow> board" where
  "Board w h =
     \<lparr>width = w, height = h,
      grid = replicate (nat h) (replicate (nat w) None),
      cleared_lines = 0\<rparr>"

text \<open>The read \<open>self.grid[y][x]\<close> and the write \<open>self.grid[y][x] = v\<close>.\<close>

definition grid_at :: "board \<Rightarrow> int \<Rightarrow> int \<Rightarrow> py_error + kind option" where
  "grid_at b y x = (case py_get (grid b) y of Inl e \<Rightarrow> Inl e | Inr row \<Rightarrow> py_get row x)"

definition grid_set :: "board \<Rightarrow> int \<Rightarrow> int \<Rightarrow> kind option \<Rightarrow> py_error + board" where
  "grid_set b y x v =
     (case py_get (grid b) y of Inl e \<Rightarrow> Inl e
      | Inr row \<Rightarrow>
         (case py_set row x v of Inl e \<Rightarrow> Inl e
          | Inr row' \<Rightarrow>
             (case py_set (grid b) y row' of Inl e \<Rightarrow> Inl e
              | Inr g' \<Rightarrow> Inr (b\<lparr>grid := g'\<rparr>))))"

text \<open>The loop of \<open>is_valid_position\<close> over the cells of the piece.\<close>

fun valid_cells :: "board \<Rightarrow> (int \<times> int) list \<Rightarrow> py_error + bool" where
  "valid_cells b [] = Inr True"
| "valid_cells b ((x, y) # cells) =
     (if x < 0 \<or> x \<ge> width b \<or> y \<ge> height b then Inr False
      else if y \<ge> 0 then
        (case grid_at b y x of Inl e \<Rightarrow> Inl e
         | Inr c \<Rightarrow> if c \<noteq> None then Inr False else valid_cells b cells)
      else valid_cells b cells)"

definition is_valid_position :: "board \<Rightarrow> piece \<Rightarrow> py_error + bool" where
  "is_valid_position b p = valid_cells b (get_cells p)"

text \<open>The loop of \<open>place_piece\<close> that writes the cells.\<close>

fun place_cells :: "board \<Rightarrow> kind \<Rightarrow> (int \<times> int) list \<Rightarrow> py_error + board" where
  "place_cells b k [] = Inr b"
| "place_cells b k ((x, y) # cells) =
     (if 0 \<le> y \<and> y < height b \<and> 0 \<le> x \<and> x < width b then
        (case grid_set b y x (Some k) of Inl e \<Rightarrow> Inl e
         | Inr b' \<Rightarrow> place_cells b' k cells)
      else place_cells b k cells)"

definition place_piece :: "board \<Rightarrow> piece \<Rightarrow> py_error + (bool \<times> board)" where
  "place_piece b p =
     (case is_valid_position b p of Inl e \<Rightarrow> Inl e
      | Inr ok \<Rightarrow>
         if \<not> ok then Inr (False, b)
         else (case place_cells b (piece_type p) (get_cells p) of Inl e \<Rightarrow> Inl e
               | Inr b' \<Rightarrow> Inr (True, b')))"

text \<open>\<open>clear_lines\<close>: first the scan for completed rows, for \<open>y\<close> in \<open>range(height)\<close>, then
  the removal loop over the reversed list, each step deleting \<open>grid[y]\<close> and inserting an
  empty row at index 0.\<close>

definition row_complete :: "kind option list \<Rightarrow> bool" where
  "row_complete row = list_all (\<lambda>cell. cell \<noteq> None) row"

fun find_lines :: "kind option list list \<Rightarrow> int list \<Rightarrow> py_error + int list" where
  "find_lines g [] = Inr []"
| "find_lines g (y # ys) =
     (case py_get g y of Inl e \<Rightarrow> Inl e
      | Inr row \<Rightarrow>
         (case find_lines g ys of Inl e \<Rightarrow> Inl e
          | Inr ls \<Rightarrow> Inr (if row_complete row then y # ls else ls)))"

fun remove_lines :: "kind option list list \<Rightarrow> int \<Rightarrow> int list \<Rightarrow> py_error + kind option list list" where
  "remove_lines g w [] = Inr g"
| "remove_lines g w (y # ys) =
     (case py_del g y of Inl e \<Rightarrow> Inl e
      | Inr g' \<Rightarrow> remove_lines (replicate (nat w) None # g') w ys)"

definition clear_lines :: "board \<Rightarrow> py_error + (int \<times> board)" where
  "clear_lines b =
     (case find_lines (grid b) (map int [0..<nat (height b)]) of Inl e \<Rightarrow> Inl e
      | Inr lines_to_clear \<Rightarrow>
         (case remove_lines (grid b) (width b) (rev lines_to_clear) of Inl e \<Rightarrow> Inl e
          | Inr g' \<Rightarrow>
             Inr (int (length lines_to_clear),
                  b\<lparr>grid := g',
                    cleared_lines := cleared_lines b + int (length lines_to_clear)\<rparr>)))"

definition is_game_over :: "board \<Rightarrow> py_error + bool" where
  "is_game_over b =
     (case py_get (grid b) 0 of Inl e \<Rightarrow> Inl e
      | Inr row \<Rightarrow> Inr (list_ex (\<lambda>cell. cell \<noteq> None) row))"

definition get_cell_type :: "board \<Rightarrow> int \<Rightarrow> int \<Rightarrow> py_error + kind option" where
  "get_cell_type b x y =
     (if 0 \<le> x \<and> x < width b \<and> 0 \<le> y \<and> y < height b then grid_at b y x else Inr None)"

definition clear_board :: "board \<Rightarrow> board" where
  "clear_board b =
     b\<lparr>grid := replicate (nat (height b)) (replicate (nat (width b)) None),
       cleared_lines := 0\<rparr>"

text \<open>The loop of \<open>get_height_at_column\<close> over the rows \<open>range(height)\<close>.\<close>

fun height_scan :: "board \<Rightarrow> int \<Rightarrow> int list \<Rightarrow> py_error + int" where
  "height_scan b col [] = Inr 0"
| "height_scan b col (row # rows) =
     (case grid_at b row col of Inl e \<Rightarrow> Inl e
      | Inr c \<Rightarrow> if c \<noteq> None then Inr (height b - row) else height_scan b col rows)"

definition get_height_at_column :: "board \<Rightarrow> int \<Rightarrow> py_error + int" where
  "get_height_at_column b col = height_scan b col (map int [0..<nat (height b)])"

text \<open>The invariant of the class: the grid has \<open>height\<close> rows of \<open>width\<close> cells each.  The
  constructor establishes it and every method keeps it.\<close>

definition board_wf :: "board \<Rightarrow> bool" where
  "board_wf b =
     (length (grid b) = nat (height b)
      \<and> list_all (\<lambda>row. length row = nat (width b)) (grid b))"

section \<open>Facts about the board\<close>

text \<open>A cell at which \<open>is_valid_position\<close> fails, on a board whose grid has its declared
  dimensions.\<close>

definition blocked :: "board \<Rightarrow> int \<times> int \<Rightarrow> bool" where
  "blocked b c =
     (case c of (x, y) \<Rightarrow>
        x < 0 \<or> x \<ge> width b \<or> y \<ge> height b \<or> (y \<ge> 0 \<and> grid b ! nat y ! nat x \<noteq> None))"

lemma py_get_in_range: "0 \<le> i \<Longrightarrow> i < int (length xs) \<Longrightarrow> py_get xs i = Inr (xs ! nat i)"
  by (simp add: py_get_def norm_index_def)

lemma grid_at_wf:
  assumes "board_wf b" "0 \<le> y" "y < height b" "0 \<le> x" "x < width b"
  shows "grid_at b y x = Inr (grid b ! nat y ! nat x)"
proof -
  have ly: "nat y < length (grid b)" using assms by (simp add: board_wf_def)
  then have "grid b ! nat y \<in> set (grid b)" by (rule nth_mem)
  then have lx: "length (grid b ! nat y) = nat (width b)"
    using assms(1) by (simp add: board_wf_def list_all_iff)
  have "py_get (grid b) y = Inr (grid b ! nat y)"
    using ly assms(2) by (simp add: py_get_in_range)
  moreover have "py_get (grid b ! nat y) x = Inr (grid b ! nat y ! nat x)"
    using lx assms(4,5) by (simp add: py_get_in_range)
  ultimately show ?thesis by (simp add: grid_at_def)
qed

lemma valid_cells_wf:
  "board_wf b \<Longrightarrow> valid_cells b cs = Inr (\<not> (\<exists>c \<in> set cs. blocked b c))"
proof (induction cs)
  case Nil
  then show ?case by simp
next
  case (Cons c cs)
  obtain x y where c: "c = (x, y)" by (cases c)
  show ?case
  proof (cases "x < 0 \<or> x \<ge> width b \<or> y \<ge> height b")
    case True
    then show ?thesis by (auto simp: c blocked_def)
  next
    case False
    show ?thesis
    proof (cases "y \<ge> 0")
      case True
      with False Cons.prems have "grid_at b y x = Inr (grid b ! nat y ! nat x)"
        by (simp add: grid_at_wf)
      with False True Cons show ?thesis by (auto simp: c blocked_def)
    next
      case neg: False
      with False Cons show ?thesis by (auto simp: c blocked_def)
    qed
  qed
qed

lemma is_valid_position_wf:
  "board_wf b \<Longrightarrow> is_valid_position b p = Inr (\<not> (\<exists>c \<in> set (get_cells p). blocked b c))"
  by (simp add: is_valid_position_def valid_cells_wf)

lemma board_wf_Board: "board_wf (Board w h)"
  by (simp add: board_wf_def Board_def list_all_iff)

lemma spawn_valid:
  "is_valid_position (Board BOARD_WIDTH BOARD_HEIGHT) (BlockDrop k (BOARD_WIDTH div 2 - 1) 0)
     = Inr True"
  apply (simp add: is_valid_position_wf board_wf_Board)
  apply (cases k)
  apply (simp_all add: get_cells_def current_shape_def shape_index_def shapes_def BlockDrop_def
      BOARD_WIDTH_def BOARD_HEIGHT_def blocked_def Board_def occupied_char_def enumerate_eq_zip)
  done

text \<open>
  Claim C2.  On a board whose grid has its declared dimensions, \<open>is_valid_position\<close>
  returns (without raising) \<open>False\<close> exactly when some absolute cell of the piece has
  column \<open>< 0\<close>, column \<open>\<ge> width\<close>, row \<open>\<ge> height\<close>, or row \<open>\<ge> 0\<close> and an occupied grid
  cell; a cell with row \<open>< 0\<close> passes whenever its column is in range.  A piece of any kind
  spawned at column \<open>BOARD_WIDTH // 2 - 1\<close>, row 0, is valid on the empty standard board.
\<close>

theorem is_valid_position_spec:
  assumes "board_wf b"
  shows "is_valid_position b p =
           Inr (\<not> (\<exists>(x, y) \<in> set (get_cells p).
                      x < 0 \<or> x \<ge> width b \<or> y \<ge> height b
                      \<or> (y \<ge> 0 \<and> grid b ! nat y ! nat x \<noteq> None)))
         \<and> is_valid_position (Board BOARD_WIDTH BOARD_HEIGHT)
               (BlockDrop k (BOARD_WIDTH div 2 - 1) 0) = Inr True"
proof -
  have "(\<exists>c \<in> set (get_cells p). blocked b c)
        = (\<exists>(x, y) \<in> set (get_cells p).
              x < 0 \<or> x \<ge> width b \<or> y \<ge> height b
              \<or> (y \<ge> 0 \<and> grid b ! nat y ! nat x \<noteq> None))"
    by (simp add: blocked_def)
  with assms show ?thesis
    by (simp add: is_valid_position_wf spawn_valid)
qed

theorem is_valid_position_spec_witness:
  "board_wf (Board BOARD_WIDTH BOARD_HEIGHT)
   \<and> is_valid_position (Board BOARD_WIDTH BOARD_HEIGHT) (BlockDrop Piece_T 8 0) = Inr False
   \<and> is_valid_position (Board BOARD_WIDTH BOARD_HEIGHT) (BlockDrop Piece_T 7 (-2)) = Inr True"
proof -
  have w: "board_wf (Board BOARD_WIDTH BOARD_HEIGHT)" by (rule board_wf_Board)
  have a: "is_valid_position (Board BOARD_WIDTH BOARD_HEIGHT) (BlockDrop Piece_T 8 0) = Inr False"
    using is_valid_position_spec [OF w, of "BlockDrop Piece_T 8 0" Piece_T]
    by (simp add: get_cells_def current_shape_def shape_index_def shapes_def BlockDrop_def
      BOARD_WIDTH_def BOARD_HEIGHT_def Board_def occupied_char_def enumerate_eq_zip)
  have b: "is_valid_position (Board BOARD_WIDTH BOARD_HEIGHT) (BlockDrop Piece_T 7 (-2)) = Inr True"
    using is_valid_position_spec [OF w, of "BlockDrop Piece_T 7 (-2)" Piece_T]
    by (simp add: get_cells_def current_shape_def shape_index_def shapes_def BlockDrop_def
      BOARD_WIDTH_def BOARD_HEIGHT_def Board_def occupied_char_def enumerate_eq_zip)
  from w a b show ?thesis by simp
qed

lemma py_set_in_range:
  "0 \<le> i \<Longrightarrow> i < int (length xs) \<Longrightarrow> py_set xs i v = Inr (xs[nat i := v])"
  by (simp add: py_set_def norm_index_def)

lemma grid_set_wf:
  assumes "board_wf b" "0 \<le> y" "y < height b" "0 \<le> x" "x < width b"
  shows "grid_set b y x v = Inr (b\<lparr>grid := (grid b)[nat y := (grid b ! nat y)[nat x := v]]\<rparr>)"
proof -
  have ly: "nat y < length (grid b)" using assms by (simp add: board_wf_def)
  then have "grid b ! nat y \<in> set (grid b)" by (rule nth_mem)
  then have lx: "length (grid b ! nat y) = nat (width b)"
    using assms(1) by (simp add: board_wf_def list_all_iff)
  have 1: "py_get (grid b) y = Inr (grid b ! nat y)"
    using ly assms(2) by (simp add: py_get_in_range)
  have 2: "py_set (grid b ! nat y) x v = Inr ((grid b ! nat y)[nat x := v])"
    using lx assms(4,5) by (simp add: py_set_in_range)
  have 3: "py_set (grid b) y r = Inr ((grid b)[nat y := r])" for r
    using ly assms(2) by (simp add: py_set_in_range)
  show ?thesis by (simp add: grid_set_def 1 2 3)
qed

text \<open>The effect of an in-range write \<open>grid[y][x] = v\<close>.\<close>

definition write_cell :: "board \<Rightarrow> int \<Rightarrow> int \<Rightarrow> kind option \<Rightarrow> board" where
  "write_cell b y x v = b\<lparr>grid := (grid b)[nat y := (grid b ! nat y)[nat x := v]]\<rparr>"

lemma write_cell_fields [simp]:
  "width (write_cell b y x v) = width b"
  "height (write_cell b y x v) = height b"
  "cleared_lines (write_cell b y x v) = cleared_lines b"
  by (simp_all add: write_cell_def)

lemma board_wf_write_cell:
  assumes "board_wf b"
  shows "board_wf (write_cell b y x v)"
proof (cases "nat y < length (grid b)")
  case True
  then have "grid b ! nat y \<in> set (grid b)" by simp
  then have lx: "length ((grid b ! nat y)[nat x := v]) = nat (width b)"
    using assms by (simp add: board_wf_def list_all_iff)
  have "row \<in> set ((grid b)[nat y := (grid b ! nat y)[nat x := v]]) \<Longrightarrow>
          length row = nat (width b)" for row
    using set_update_subset_insert [of "grid b" "nat y" "(grid b ! nat y)[nat x := v]"] lx assms
    by (auto simp: board_wf_def list_all_iff)
  then show ?thesis using assms
    by (simp add: board_wf_def write_cell_def list_all_iff)
next
  case False
  then have "(grid b)[nat y := (grid b ! nat y)[nat x := v]] = grid b"
    by (intro list_update_beyond) simp
  then show ?thesis using assms
    by (simp add: board_wf_def write_cell_def)
qed

lemma write_cell_nth:
  assumes "board_wf b" "0 \<le> y" "y < height b" "0 \<le> x" "x < width b"
    "0 \<le> y'" "y' < height b" "0 \<le> x'" "x' < width b"
  shows "grid (write_cell b y x v) ! nat y' ! nat x'
          = (if (x', y') = (x, y) then v else grid b ! nat y' ! nat x')"
proof -
  have ly: "nat y < length (grid b)" "nat y' < length (grid b)"
    using assms by (simp_all add: board_wf_def)
  then have "grid b ! nat y \<in> set (grid b)" by simp
  then have lx: "length (grid b ! nat y) = nat (width b)"
    using assms(1) by (simp add: board_wf_def list_all_iff)
  show ?thesis
  proof (cases "y' = y")
    case True
    then show ?thesis using ly lx assms
      by (auto simp: write_cell_def nth_list_update)
  next
    case False
    then have "nat y' \<noteq> nat y" using assms by simp
    then show ?thesis using ly False
      by (simp add: write_cell_def)
  qed
qed

lemma place_cells_wf:
  "board_wf b \<Longrightarrow>
     \<exists>b'. place_cells b k cs = Inr b' \<and> board_wf b' \<and> width b' = width b
        \<and> height b' = height b \<and> cleared_lines b' = cleared_lines b
        \<and> (\<forall>x y. 0 \<le> x \<and> x < width b \<and> 0 \<le> y \<and> y < height b \<longrightarrow>
              grid b' ! nat y ! nat x
                = (if (x, y) \<in> set cs then Some k else grid b ! nat y ! nat x))"
proof (induction cs arbitrary: b)
  case Nil
  then show ?case by simp
next
  case (Cons c cs)
  obtain cx cy where c: "c = (cx, cy)" by (cases c)
  show ?case
  proof (cases "0 \<le> cy \<and> cy < height b \<and> 0 \<le> cx \<and> cx < width b")
    case True
    let ?b1 = "write_cell b cy cx (Some k)"
    have gs: "grid_set b cy cx (Some k) = Inr ?b1"
      using True Cons.prems by (simp add: grid_set_wf write_cell_def)
    have wf1: "board_wf ?b1" using Cons.prems by (rule board_wf_write_cell)
    from Cons.IH [OF wf1] obtain b' where b':
      "place_cells ?b1 k cs = Inr b'" "board_wf b'" "width b' = width b"
      "height b' = height b" "cleared_lines b' = cleared_lines b"
      "\<forall>x y. 0 \<le> x \<and> x < width b \<and> 0 \<le> y \<and> y < height b \<longrightarrow>
              grid b' ! nat y ! nat x
                = (if (x, y) \<in> set cs then Some k else grid ?b1 ! nat y ! nat x)"
      by auto
    have "place_cells b k (c # cs) = Inr b'"
      using True gs b'(1) by (simp add: c)
    moreover have "grid b' ! nat y ! nat x
                = (if (x, y) \<in> set (c # cs) then Some k else grid b ! nat y ! nat x)"
      if "0 \<le> x \<and> x < width b \<and> 0 \<le> y \<and> y < height b" for x y
      using that b'(6) True Cons.prems by (simp add: c write_cell_nth)
    ultimately show ?thesis using b'(2-5) by blast
  next
    case False
    from Cons.IH [OF Cons.prems] obtain b' where b':
      "place_cells b k cs = Inr b'" "board_wf b'" "width b' = width b"
      "height b' = height b" "cleared_lines b' = cleared_lines b"
      "\<forall>x y. 0 \<le> x \<and> x < width b \<and> 0 \<le> y \<and> y < height b \<longrightarrow>
              grid b' ! nat y ! nat x
                = (if (x, y) \<in> set cs then Some k else grid b ! nat y ! nat x)"
      by auto
    have "place_cells b k (c # cs) = Inr b'"
      using False b'(1) by (auto simp: c)
    moreover have "grid b' ! nat y ! nat x
                = (if (x, y) \<in> set (c # cs) then Some k else grid b ! nat y ! nat x)"
      if "0 \<le> x \<and> x < width b \<and> 0 \<le> y \<and> y < height b" for x y
      using that b'(6) False by (auto simp: c)
    ultimately show ?thesis using b'(2-5) by blast
  qed
qed

text \<open>
  Claim C3.  On a board whose grid has its declared dimensions, \<open>place_piece\<close> validates
  first and never raises.  If the position is invalid it returns \<open>False\<close> and the board is
  the one it was given.  If the position is valid it returns \<open>True\<close>, and in the new grid a
  cell (x, y) of the board holds the kind of the piece when (x, y) is an absolute cell of
  the piece, and its old content otherwise; the dimensions and the line counter are
  unchanged.  An absolute cell with row \<open>< 0\<close> is no cell of the board, so it leaves no trace.
\<close>

theorem place_piece_spec:
  assumes "board_wf b"
  shows "(\<exists>ok. is_valid_position b p = Inr ok)
     \<and> (is_valid_position b p = Inr False \<longrightarrow> place_piece b p = Inr (False, b))
     \<and> (is_valid_position b p = Inr True \<longrightarrow>
          (\<exists>b'. place_piece b p = Inr (True, b') \<and> board_wf b'
             \<and> width b' = width b \<and> height b' = height b
             \<and> cleared_lines b' = cleared_lines b
             \<and> (\<forall>x y. 0 \<le> x \<and> x < width b \<and> 0 \<le> y \<and> y < height b \<longrightarrow>
                   grid b' ! nat y ! nat x
                     = (if (x, y) \<in> set (get_cells p) then Some (piece_type p)
                        else grid b ! nat y ! nat x))))"
proof -
  have 1: "\<exists>ok. is_valid_position b p = Inr ok"
    using assms by (simp add: is_valid_position_wf)
  have 2: "place_piece b p = Inr (False, b)" if "is_valid_position b p = Inr False"
    using that by (simp add: place_piece_def)
  have 3: "\<exists>b'. place_piece b p = Inr (True, b') \<and> board_wf b'
             \<and> width b' = width b \<and> height b' = height b
             \<and> cleared_lines b' = cleared_lines b
             \<and> (\<forall>x y. 0 \<le> x \<and> x < width b \<and> 0 \<le> y \<and> y < height b \<longrightarrow>
                   grid b' ! nat y ! nat x
                     = (if (x, y) \<in> set (get_cells p) then Some (piece_type p)
                        else grid b ! nat y ! nat x))"
    if v: "is_valid_position b p = Inr True"
  proof -
    from place_cells_wf [OF assms, of "piece_type p" "get_cells p"]
    obtain b' where b': "place_cells b (piece_type p) (get_cells p) = Inr b'"
      "board_wf b'" "width b' = width b" "height b' = height b"
      "cleared_lines b' = cleared_lines b"
      "\<forall>x y. 0 \<le> x \<and> x < width b \<and> 0 \<le> y \<and> y < height b \<longrightarrow>
                   grid b' ! nat y ! nat x
                     = (if (x, y) \<in> set (get_cells p) then Some (piece_type p)
                        else grid b ! nat y ! nat x)"
      by blast
    have "place_piece b p = Inr (True, b')"
      using v b'(1) by (simp add: place_piece_def)
    with b'(2-6) show ?thesis by blast
  qed
  from 1 2 3 show ?thesis by blast
qed

lemmas piece_eval = get_cells_def current_shape_def shape_index_def shapes_def BlockDrop_def
      occupied_char_def enumerate_eq_zip

theorem place_piece_spec_witness:
  "board_wf (Board BOARD_WIDTH BOARD_HEIGHT)
   \<and> is_valid_position (Board BOARD_WIDTH BOARD_HEIGHT)
        ((BlockDrop Piece_T 4 (-2))\<lparr>rotation := 1\<rparr>) = Inr True
   \<and> (case place_piece (Board BOARD_WIDTH BOARD_HEIGHT)
              ((BlockDrop Piece_T 4 (-2))\<lparr>rotation := 1\<rparr>) of
         Inl e \<Rightarrow> False
       | Inr (ok, b') \<Rightarrow> ok \<and> length (grid b') = 20
           \<and> grid b' ! 0 ! 4 = Some Piece_T \<and> grid b' ! 0 ! 5 = Some Piece_T
           \<and> grid b' ! 1 ! 5 = Some Piece_T \<and> grid b' ! 1 ! 4 = None)
   \<and> place_piece (Board BOARD_WIDTH BOARD_HEIGHT) (BlockDrop Piece_T 8 0)
       = Inr (False, Board BOARD_WIDTH BOARD_HEIGHT)"
proof -
  let ?B = "Board BOARD_WIDTH BOARD_HEIGHT"
  let ?P = "(BlockDrop Piece_T 4 (-2))\<lparr>rotation := 1\<rparr>"
  have w: "board_wf ?B" by (rule board_wf_Board)
  have cells: "get_cells ?P = [(5, -1), (4, 0), (5, 0), (5, 1)]"
    by (simp add: piece_eval)
  have v: "is_valid_position ?B ?P = Inr True"
    unfolding is_valid_position_wf [OF w] cells
    by (simp add: blocked_def Board_def BOARD_WIDTH_def BOARD_HEIGHT_def)
  from place_piece_spec [OF w, of ?P] v obtain b' where b':
    "place_piece ?B ?P = Inr (True, b')" "board_wf b'" "height b' = height ?B"
    "\<forall>x y. 0 \<le> x \<and> x < width ?B \<and> 0 \<le> y \<and> y < height ?B \<longrightarrow>
                   grid b' ! nat y ! nat x
                     = (if (x, y) \<in> set (get_cells ?P) then Some (piece_type ?P)
                        else grid ?B ! nat y ! nat x)"
    by blast
  have r: "grid b' ! nat y ! nat x
             = (if (x, y) \<in> set (get_cells ?P) then Some Piece_T else grid ?B ! nat y ! nat x)"
    if "0 \<le> x" "x < 10" "0 \<le> y" "y < 20" for x y
    using b'(4) that by (simp add: Board_def BOARD_WIDTH_def BOARD_HEIGHT_def BlockDrop_def)
  have l: "length (grid b') = 20"
    using b'(2,3) by (simp add: board_wf_def Board_def BOARD_HEIGHT_def)
  have "grid b' ! 0 ! 4 = Some Piece_T" using r [of 4 0] by (simp add: cells)
  moreover have "grid b' ! 0 ! 5 = Some Piece_T" using r [of 5 0] by (simp add: cells)
  moreover have "grid b' ! 1 ! 5 = Some Piece_T" using r [of 5 1] by (simp add: cells)
  moreover have "grid b' ! 1 ! 4 = None" using r [of 4 1]
    by (simp add: cells Board_def BOARD_WIDTH_def BOARD_HEIGHT_def)
  moreover have "place_piece ?B (BlockDrop Piece_T 8 0) = Inr (False, ?B)"
  proof -
    have "is_valid_position ?B (BlockDrop Piece_T 8 0) = Inr False"
      unfolding is_valid_position_wf [OF w]
      by (simp add: piece_eval blocked_def Board_def BOARD_WIDTH_def BOARD_HEIGHT_def)
    with place_piece_spec [OF w, of "BlockDrop Piece_T 8 0"] show ?thesis by blast
  qed
  ultimately show ?thesis using w v b'(1) l by simp
qed

lemma py_get_out_of_range:
  "i \<ge> int (length xs) \<or> i < - int (length xs) \<Longrightarrow> py_get xs i = Inl IndexError"
  by (auto simp: py_get_def norm_index_def)

lemma height_scan_wf:
  assumes "board_wf b" "0 \<le> col" "col < width b" "\<forall>r \<in> set rows. r < nat (height b)"
  shows "height_scan b col (map int rows)
           = Inr (case find (\<lambda>row. grid b ! row ! nat col \<noteq> None) rows of
                    None \<Rightarrow> 0 | Some row \<Rightarrow> height b - int row)"
  using assms(4)
proof (induction rows)
  case Nil
  then show ?case by simp
next
  case (Cons r rows)
  then have "0 \<le> int r" "int r < height b" by (simp_all add: zless_nat_eq_int_zless)
  then have "grid_at b (int r) col = Inr (grid b ! r ! nat col)"
    using grid_at_wf [OF assms(1), of "int r" col] assms(2,3) by simp
  with Cons show ?case by simp
qed

lemma height_scan_raises:
  assumes "board_wf b" "col \<ge> width b \<or> col < - width b" "rows \<noteq> []"
    "\<forall>r \<in> set rows. r < nat (height b)"
  shows "height_scan b col (map int rows) = Inl IndexError"
proof -
  obtain r rs where rows: "rows = r # rs" using assms(3) by (cases rows) auto
  then have r: "r < length (grid b)" using assms(1,4) by (simp add: board_wf_def)
  then have "grid b ! r \<in> set (grid b)" by simp
  then have lx: "length (grid b ! r) = nat (width b)"
    using assms(1) by (simp add: board_wf_def list_all_iff)
  have "py_get (grid b) (int r) = Inr (grid b ! r)"
    using r by (simp add: py_get_in_range)
  moreover have "py_get (grid b ! r) col = Inl IndexError"
    using lx assms(2) by (intro py_get_out_of_range) auto
  ultimately show ?thesis by (simp add: rows grid_at_def)
qed

text \<open>
  Claim C10.  \<open>get_height_at_column\<close> reads \<open>grid[row][col]\<close> with no bounds check.  On a
  board whose grid has its declared dimensions and for \<open>0 \<le> col < width\<close> it returns
  \<open>height\<close> minus the index of the topmost occupied row of the column, and 0 when the
  column is empty.  For \<open>col \<ge> width\<close> or \<open>col < - width\<close> on a board with at least one
  row the read raises \<open>IndexError\<close>.  \<open>get_cell_type\<close> checks the bounds: it returns \<open>None\<close>
  for every coordinate outside the board and the grid cell inside it.
\<close>

theorem get_height_at_column_spec:
  assumes "board_wf b"
  shows "(0 \<le> col \<and> col < width b \<longrightarrow>
            get_height_at_column b col
              = Inr (case find (\<lambda>row. grid b ! row ! nat col \<noteq> None) [0..<nat (height b)] of
                       None \<Rightarrow> 0 | Some row \<Rightarrow> height b - int row))
       \<and> ((col \<ge> width b \<or> col < - width b) \<and> 0 < height b \<longrightarrow>
            get_height_at_column b col = Inl IndexError)
       \<and> (\<not> (0 \<le> x \<and> x < width b \<and> 0 \<le> y \<and> y < height b) \<longrightarrow>
            get_cell_type b x y = Inr None)
       \<and> (0 \<le> x \<and> x < width b \<and> 0 \<le> y \<and> y < height b \<longrightarrow>
            get_cell_type b x y = Inr (grid b ! nat y ! nat x))"
proof -
  have 1: "get_height_at_column b col
              = Inr (case find (\<lambda>row. grid b ! row ! nat col \<noteq> None) [0..<nat (height b)] of
                       None \<Rightarrow> 0 | Some row \<Rightarrow> height b - int row)"
    if "0 \<le> col \<and> col < width b"
    unfolding get_height_at_column_def using that assms
    by (intro height_scan_wf) simp_all
  have 2: "get_height_at_column b col = Inl IndexError"
    if "(col \<ge> width b \<or> col < - width b) \<and> 0 < height b"
    unfolding get_height_at_column_def using that assms
    by (intro height_scan_raises) simp_all
  have 3: "get_cell_type b x y = Inr None"
    if "\<not> (0 \<le> x \<and> x < width b \<and> 0 \<le> y \<and> y < height b)"
    using that by (auto simp: get_cell_type_def)
  have 4: "get_cell_type b x y = Inr (grid b ! nat y ! nat x)"
    if "0 \<le> x \<and> x < width b \<and> 0 \<le> y \<and> y < height b"
    using that assms by (simp add: get_cell_type_def grid_at_wf)
  from 1 2 3 4 show ?thesis by blast
qed


theorem get_height_at_column_spec_witness:
  "board_wf (write_cell (Board BOARD_WIDTH BOARD_HEIGHT) 17 3 (Some Piece_O))
   \<and> get_height_at_column (write_cell (Board BOARD_WIDTH BOARD_HEIGHT) 17 3 (Some Piece_O)) 3
       = Inr 3
   \<and> get_height_at_column (write_cell (Board BOARD_WIDTH BOARD_HEIGHT) 17 3 (Some Piece_O)) 4
       = Inr 0
   \<and> get_height_at_column (write_cell (Board BOARD_WIDTH BOARD_HEIGHT) 17 3 (Some Piece_O)) 10
       = Inl IndexError
   \<and> get_cell_type (write_cell (Board BOARD_WIDTH BOARD_HEIGHT) 17 3 (Some Piece_O)) 10 17
       = Inr None
   \<and> get_cell_type (write_cell (Board BOARD_WIDTH BOARD_HEIGHT) 17 3 (Some Piece_O)) 3 17
       = Inr (Some Piece_O)"
proof -
  let ?B = "write_cell (Board BOARD_WIDTH BOARD_HEIGHT) 17 3 (Some Piece_O)"
  have w: "board_wf ?B" by (intro board_wf_write_cell board_wf_Board)
  have d: "width (Board BOARD_WIDTH BOARD_HEIGHT) = 10" "height (Board BOARD_WIDTH BOARD_HEIGHT) = 20"
    by (simp_all add: Board_def BOARD_WIDTH_def BOARD_HEIGHT_def)
  have f3: "find (\<lambda>row. grid ?B ! row ! nat 3 \<noteq> None) [0..<nat 20] = Some 17"
    by code_simp
  have f4: "find (\<lambda>row. grid ?B ! row ! nat 4 \<noteq> None) [0..<nat 20] = None"
    by code_simp
  have c: "grid ?B ! nat 17 ! nat 3 = Some Piece_O"
    by code_simp
  have 1: "get_height_at_column ?B 3 = Inr 3"
    using get_height_at_column_spec [OF w, of 3 0 0] f3 by (simp add: d)
  have 2: "get_height_at_column ?B 4 = Inr 0"
    using get_height_at_column_spec [OF w, of 4 0 0] f4 by (simp add: d)
  have 3: "get_height_at_column ?B 10 = Inl IndexError"
    using get_height_at_column_spec [OF w, of 10 0 0] by (simp add: d)
  have 4: "get_cell_type ?B 10 17 = Inr None"
    using get_height_at_column_spec [OF w, of 0 10 17] by (simp add: d)
  have 5: "get_cell_type ?B 3 17 = Inr (Some Piece_O)"
    using get_height_at_column_spec [OF w, of 0 3 17] c by (simp add: d)
  from w 1 2 3 4 5 show ?thesis by simp
qed

lemma py_del_in_range:
  "0 \<le> i \<Longrightarrow> i < int (length xs) \<Longrightarrow> py_del xs i = Inr (take (nat i) xs @ drop (Suc (nat i)) xs)"
  by (simp add: py_del_def norm_index_def)

lemma find_lines_wf:
  "\<forall>r \<in> set rows. r < length g \<Longrightarrow>
     find_lines g (map int rows) = Inr (map int (filter (\<lambda>r. row_complete (g ! r)) rows))"
  by (induction rows) (simp_all add: py_get_in_range)

lemma remove_lines_wf:
  "\<forall>y \<in> set ys. 0 \<le> y \<and> y < int (length g) \<Longrightarrow>
   list_all (\<lambda>row. length row = nat w) g \<Longrightarrow>
     \<exists>g'. remove_lines g w ys = Inr g' \<and> length g' = length g
        \<and> list_all (\<lambda>row. length row = nat w) g'"
proof (induction ys arbitrary: g)
  case Nil
  then show ?case by simp
next
  case (Cons y ys)
  let ?d = "take (nat y) g @ drop (Suc (nat y)) g"
  let ?g1 = "replicate (nat w) None # ?d"
  from Cons.prems have y: "0 \<le> y" "y < int (length g)" by simp_all
  then have d: "py_del g y = Inr ?d" by (rule py_del_in_range)
  have len: "length ?g1 = length g" using y by simp
  have "set ?d \<subseteq> set g"
    using set_take_subset [of "nat y" g] set_drop_subset [of "Suc (nat y)" g] by auto
  then have rows: "list_all (\<lambda>row. length row = nat w) ?g1"
    using Cons.prems(2) by (auto simp: list_all_iff)
  have "\<forall>y \<in> set ys. 0 \<le> y \<and> y < int (length ?g1)"
    using Cons.prems(1) len by simp
  from Cons.IH [OF this rows] obtain g' where
    "remove_lines ?g1 w ys = Inr g'" "length g' = length ?g1"
    "list_all (\<lambda>row. length row = nat w) g'"
    by blast
  then show ?case using d len by (simp del: length_append length_take length_drop)
qed

lemma clear_lines_wf:
  assumes "board_wf b"
  shows "\<exists>b'. clear_lines b
            = Inr (int (length (filter (\<lambda>r. row_complete (grid b ! r)) [0..<nat (height b)])), b')
          \<and> board_wf b' \<and> width b' = width b \<and> height b' = height b
          \<and> cleared_lines b' = cleared_lines b
               + int (length (filter (\<lambda>r. row_complete (grid b ! r)) [0..<nat (height b)]))"
proof -
  let ?ls = "filter (\<lambda>r. row_complete (grid b ! r)) [0..<nat (height b)]"
  have len: "length (grid b) = nat (height b)" using assms by (simp add: board_wf_def)
  have f: "find_lines (grid b) (map int [0..<nat (height b)]) = Inr (map int ?ls)"
    by (rule find_lines_wf) (simp add: len)
  have "\<forall>y \<in> set (rev (map int ?ls)). 0 \<le> y \<and> y < int (length (grid b))"
    by (auto simp: len)
  moreover have "list_all (\<lambda>row. length row = nat (width b)) (grid b)"
    using assms by (simp add: board_wf_def)
  ultimately obtain g' where g': "remove_lines (grid b) (width b) (rev (map int ?ls)) = Inr g'"
    "length g' = length (grid b)" "list_all (\<lambda>row. length row = nat (width b)) g'"
    using remove_lines_wf by blast
  show ?thesis
    using f g' len by (simp add: clear_lines_def board_wf_def)
qed

text \<open>With no completed row \<open>clear_lines\<close> changes nothing; with exactly one it removes that
  row and puts an empty row on top.\<close>

lemma clear_lines_none:
  assumes "board_wf b"
    and "filter (\<lambda>r. row_complete (grid b ! r)) [0..<nat (height b)] = []"
  shows "clear_lines b = Inr (0, b)"
proof -
  have len: "length (grid b) = nat (height b)" using assms(1) by (simp add: board_wf_def)
  have "find_lines (grid b) (map int [0..<nat (height b)]) = Inr []"
    using find_lines_wf [of "[0..<nat (height b)]" "grid b"] assms(2) len by simp
  then show ?thesis by (simp add: clear_lines_def)
qed

lemma clear_lines_single:
  assumes "board_wf b"
    and "filter (\<lambda>r. row_complete (grid b ! r)) [0..<nat (height b)] = [r]"
  shows "clear_lines b
           = Inr (1, b\<lparr>grid := replicate (nat (width b)) None
                                # take r (grid b) @ drop (Suc r) (grid b),
                        cleared_lines := cleared_lines b + 1\<rparr>)"
proof -
  have len: "length (grid b) = nat (height b)" using assms(1) by (simp add: board_wf_def)
  have "r \<in> set (filter (\<lambda>r. row_complete (grid b ! r)) [0..<nat (height b)])"
    using assms(2) by simp
  then have r: "r < length (grid b)" using len by simp
  have f: "find_lines (grid b) (map int [0..<nat (height b)]) = Inr [int r]"
    using find_lines_wf [of "[0..<nat (height b)]" "grid b"] assms(2) len by simp
  have "py_del (grid b) (int r) = Inr (take r (grid b) @ drop (Suc r) (grid b))"
    using r py_del_in_range [of "int r" "grid b"] by simp
  then show ?thesis using f by (simp add: clear_lines_def)
qed

text \<open>
  Claim C1.  \<open>clear_lines\<close> is to remove exactly the completed rows and let the rows above
  them fall.  The removal loop deletes the bottom-most completed row and inserts the empty
  row at the top before it deletes the next one, so every remaining index of
  \<open>lines_to_clear\<close> now names the row that was one above.  On the standard board below,
  rows 18 and 19 are complete and row 17 holds one cell: the call returns 2, deletes row 19
  and then row 17, and leaves the completed row 18 at the bottom.
\<close>

theorem clear_lines_two_rows:
  "clear_lines
     \<lparr>width = 10, height = 20,
      grid = replicate 17 (replicate 10 None)
             @ [(replicate 10 None)[0 := Some Piece_T],
                replicate 10 (Some Piece_I),
                replicate 10 (Some Piece_O)],
      cleared_lines = 0\<rparr>
   = Inr (2, \<lparr>width = 10, height = 20,
              grid = replicate 19 (replicate 10 None) @ [replicate 10 (Some Piece_I)],
              cleared_lines = 2\<rparr>)"
  by code_simp

section \<open>The piece generator (block\_drop.py)\<close>

text \<open>
  \<open>random.shuffle\<close> is the only source of randomness.  The functions that may refill the
  bag take the shuffle as a parameter: a function from the list it is given to the list it
  leaves.  Python's shuffle returns a permutation of its argument; theorems that need this
  assume \<open>is_shuffle\<close>.
\<close>

type_synonym shuffle = "kind list \<Rightarrow> kind list"

definition is_shuffle :: "shuffle \<Rightarrow> bool" where
  "is_shuffle sh = (\<forall>xs. mset (sh xs) = mset xs)"

definition PIECE_TYPES :: "kind list" where
  "PIECE_TYPES = [Piece_I, Piece_O, Piece_T, Piece_S, Piece_Z, Piece_J, Piece_L]"

record generator =
  bag :: "kind list"

definition refill_bag :: "shuffle \<Rightarrow> generator \<Rightarrow> generator" where
  "refill_bag sh gen = gen\<lparr>bag := sh PIECE_TYPES\<rparr>"

definition BlockDropGenerator :: "shuffle \<Rightarrow> generator" where
  "BlockDropGenerator sh = refill_bag sh \<lparr>bag = []\<rparr>"

text \<open>\<open>list.pop()\<close> removes and returns the last element, and raises on an empty list.\<close>

definition py_pop :: "'a list \<Rightarrow> py_error + ('a \<times> 'a list)" where
  "py_pop xs = (if xs = [] then Inl IndexError else Inr (last xs, butlast xs))"

definition get_next_piece ::
    "shuffle \<Rightarrow> int \<Rightarrow> int \<Rightarrow> generator \<Rightarrow> py_error + (piece \<times> generator)" where
  "get_next_piece sh x0 y0 gen =
     (let gen1 = (if bag gen = [] then refill_bag sh gen else gen)
      in case py_pop (bag gen1) of Inl e \<Rightarrow> Inl e
         | Inr (k, rest) \<Rightarrow> Inr (BlockDrop k x0 y0, gen1\<lparr>bag := rest\<rparr>))"

text \<open>Consecutive calls of \<open>get_next_piece\<close>, one shuffle supplied per call (it is used only
  if that call refills); the result is the list of kinds drawn, in order.\<close>

fun draws :: "shuffle list \<Rightarrow> generator \<Rightarrow> py_error + (kind list \<times> generator)" where
  "draws [] gen = Inr ([], gen)"
| "draws (sh # shs) gen =
     (case get_next_piece sh 4 0 gen of Inl e \<Rightarrow> Inl e
      | Inr (p, gen1) \<Rightarrow>
         (case draws shs gen1 of Inl e \<Rightarrow> Inl e
          | Inr (ks, gen2) \<Rightarrow> Inr (piece_type p # ks, gen2)))"

section \<open>The game engine (game.py)\<close>

definition INITIAL_FALL_SPEED :: int where "INITIAL_FALL_SPEED = 500"
definition MOVE_REPEAT_DELAY :: int where "MOVE_REPEAT_DELAY = 150"
definition SCORE_SINGLE :: int where "SCORE_SINGLE = 100"
definition SCORE_DOUBLE :: int where "SCORE_DOUBLE = 300"
definition SCORE_TRIPLE :: int where "SCORE_TRIPLE = 500"
definition SCORE_TETRIS :: int where "SCORE_TETRIS = 800"
definition SCORE_SOFT_DROP :: int where "SCORE_SOFT_DROP = 1"
definition LINES_PER_LEVEL :: int where "LINES_PER_LEVEL = 10"

text \<open>
  The state of a \<open>TetrisGame\<close>.  The renderer and the key-repeat tables of \<open>handle_input\<close>
  are left out: no function below reads them.
\<close>

record game =
  board :: board
  piece_generator :: generator
  current_piece :: "piece option"
  next_piece :: "piece option"
  score :: int
  level :: int
  lines_cleared :: int
  game_over :: bool
  paused :: bool
  last_fall_time :: int
  fall_speed :: int
  last_move_time :: int
  move_delay :: int

definition spawn_new_piece :: "shuffle \<Rightarrow> game \<Rightarrow> py_error + game" where
  "spawn_new_piece sh g =
     (case (case next_piece g of
              Some np \<Rightarrow> Inr (np\<lparr>px := BOARD_WIDTH div 2 - 1, py := 0\<rparr>, piece_generator g)
            | None \<Rightarrow> get_next_piece sh (BOARD_WIDTH div 2 - 1) 0 (piece_generator g))
      of Inl e \<Rightarrow> Inl e
      | Inr (cp, gen1) \<Rightarrow>
         (case get_next_piece sh 4 0 gen1 of Inl e \<Rightarrow> Inl e
          | Inr (np, gen2) \<Rightarrow>
             (case is_valid_position (board g) cp of Inl e \<Rightarrow> Inl e
              | Inr ok \<Rightarrow>
                 Inr (g\<lparr>current_piece := Some cp, next_piece := Some np,
                        piece_generator := gen2,
                        game_over := (if \<not> ok then True else game_over g)\<rparr>))))"

definition move_piece :: "int \<Rightarrow> int \<Rightarrow> game \<Rightarrow> py_error + (bool \<times> game)" where
  "move_piece dx dy g =
     (case current_piece g of
        None \<Rightarrow> Inr (False, g)
      | Some cp \<Rightarrow>
          if game_over g \<or> paused g then Inr (False, g)
          else (case is_valid_position (board g) (move dx dy (copy cp)) of Inl e \<Rightarrow> Inl e
                | Inr ok \<Rightarrow>
                   if ok then Inr (True, g\<lparr>current_piece := Some (move dx dy cp)\<rparr>)
                   else Inr (False, g)))"

definition rotate_dir :: "bool \<Rightarrow> piece \<Rightarrow> piece" where
  "rotate_dir clockwise p = (if clockwise then rotate_clockwise p else rotate_counterclockwise p)"

text \<open>The wall-kick loop of \<open>rotate_piece\<close>: \<open>cp\<close> is the current piece, \<open>tp\<close> the rotated
  test copy.\<close>

fun wall_kicks :: "bool \<Rightarrow> game \<Rightarrow> piece \<Rightarrow> piece \<Rightarrow> int list \<Rightarrow> py_error + (bool \<times> game)" where
  "wall_kicks clockwise g cp tp [] = Inr (False, g)"
| "wall_kicks clockwise g cp tp (dx # dxs) =
     (case is_valid_position (board g) (tp\<lparr>px := px cp + dx\<rparr>) of Inl e \<Rightarrow> Inl e
      | Inr ok \<Rightarrow>
         if ok
         then Inr (True, g\<lparr>current_piece :=
                     Some ((rotate_dir clockwise cp)\<lparr>px := px (rotate_dir clockwise cp) + dx\<rparr>)\<rparr>)
         else wall_kicks clockwise g cp (tp\<lparr>px := px cp\<rparr>) dxs)"

definition rotate_piece :: "bool \<Rightarrow> game \<Rightarrow> py_error + (bool \<times> game)" where
  "rotate_piece clockwise g =
     (case current_piece g of
        None \<Rightarrow> Inr (False, g)
      | Some cp \<Rightarrow>
          if game_over g \<or> paused g then Inr (False, g)
          else (case is_valid_position (board g) (rotate_dir clockwise (copy cp)) of
                  Inl e \<Rightarrow> Inl e
                | Inr ok \<Rightarrow>
                   if ok then Inr (True, g\<lparr>current_piece := Some (rotate_dir clockwise cp)\<rparr>)
                   else wall_kicks clockwise g cp (rotate_dir clockwise (copy cp)) [-1, 1, -2, 2]))"

definition soft_drop :: "game \<Rightarrow> py_error + (bool \<times> game)" where
  "soft_drop g =
     (case move_piece 0 1 g of Inl e \<Rightarrow> Inl e
      | Inr (ok, g1) \<Rightarrow>
         if ok then Inr (True, g1\<lparr>score := score g1 + SCORE_SOFT_DROP\<rparr>) else Inr (False, g1))"

definition update_score :: "int \<Rightarrow> game \<Rightarrow> game" where
  "update_score n g =
     (let base_score =
        (if n = 1 then SCORE_SINGLE
         else if n = 2 then SCORE_DOUBLE
         else if n = 3 then SCORE_TRIPLE
         else if n = 4 then SCORE_TETRIS
         else 0)
      in g\<lparr>score := score g + base_score * level g\<rparr>)"

text \<open>\<open>update_level\<close> computes the new fall speed in floating point,
  \<open>int(INITIAL_FALL_SPEED * (SPEED_INCREASE ** (level - 1)))\<close>; the function from the level
  to that integer is the parameter \<open>speed\<close>.\<close>

definition update_level :: "(int \<Rightarrow> int) \<Rightarrow> game \<Rightarrow> game" where
  "update_level speed g =
     (let new_level = 1 + lines_cleared g div LINES_PER_LEVEL
      in if new_level > level g then g\<lparr>level := new_level, fall_speed := speed new_level\<rparr>
         else g)"

definition lock_piece :: "shuffle \<Rightarrow> (int \<Rightarrow> int) \<Rightarrow> game \<Rightarrow> py_error + game" where
  "lock_piece sh speed g =
     (case current_piece g of
        None \<Rightarrow> Inr g
      | Some cp \<Rightarrow>
         (case place_piece (board g) cp of Inl e \<Rightarrow> Inl e
          | Inr (placed, b1) \<Rightarrow>
             (case clear_lines b1 of Inl e \<Rightarrow> Inl e
              | Inr (n, b2) \<Rightarrow>
                 (let g1 = g\<lparr>board := b2\<rparr>;
                      g2 = (if n > 0
                            then update_level speed
                                   (update_score n (g1\<lparr>lines_cleared := lines_cleared g1 + n\<rparr>))
                            else g1)
                  in case is_game_over (board g2) of Inl e \<Rightarrow> Inl e
                     | Inr over \<Rightarrow>
                        if over then Inr (g2\<lparr>game_over := True\<rparr>)
                        else spawn_new_piece sh g2))))"

section \<open>Dropping a piece\<close>

text \<open>The cells of a rotation state, relative to the origin of the piece.\<close>

definition shape_cells :: "string list \<Rightarrow> (int \<times> int) list" where
  "shape_cells shape =
     concat (map (\<lambda>(row_idx, row).
        map (\<lambda>(col_idx, cell). (int col_idx, int row_idx))
            (filter (\<lambda>(col_idx, cell). occupied_char cell) (enumerate 0 row)))
        (enumerate 0 shape))"

lemma get_relative_cells_shape: "get_relative_cells p = shape_cells (current_shape p)"
  by (simp add: get_relative_cells_def shape_cells_def)

lemma get_cells_shape:
  "get_cells p = map (\<lambda>(c, r). (px p + c, py p + r)) (shape_cells (current_shape p))"
  by (simp add: get_cells_def shape_cells_def map_concat comp_def case_prod_unfold)

lemma shape_cells_all:
  "list_all (\<lambda>sh. shape_cells sh \<noteq> [] \<and> list_all (\<lambda>(c, r). 0 \<le> r) (shape_cells sh))
     (SHAPES k)"
  by (cases k; hypsubst_thin; code_simp)

lemma shape_cells_SHAPES:
  "sh \<in> set (SHAPES k) \<Longrightarrow>
     shape_cells sh \<noteq> [] \<and> (\<forall>(c, r) \<in> set (shape_cells sh). 0 \<le> r)"
  using shape_cells_all [of k] by (simp add: list_all_iff)

lemma current_shape_in_SHAPES: "current_shape p \<in> set (SHAPES (piece_type p))"
proof -
  have "nat (shape_index p) < length (shapes p)"
    using shape_index_range [of p] by linarith
  then have "current_shape p \<in> set (shapes p)"
    unfolding current_shape_def by (rule nth_mem)
  then show ?thesis by (simp add: shapes_def)
qed

lemma get_cells_nonempty: "\<exists>x y. (x, y) \<in> set (get_cells p) \<and> py p \<le> y"
proof -
  from shape_cells_SHAPES [OF current_shape_in_SHAPES, of p]
  obtain c r where cr: "(c, r) \<in> set (shape_cells (current_shape p))" "0 \<le> r"
    by (cases "shape_cells (current_shape p)") auto
  then have "(px p + c, py p + r) \<in> set (get_cells p)"
    by (force simp: get_cells_shape)
  with cr(2) show ?thesis by force
qed

lemma valid_cells_True:
  "valid_cells b cs = Inr True \<Longrightarrow> (x, y) \<in> set cs \<Longrightarrow> 0 \<le> x \<and> x < width b \<and> y < height b"
  by (induction cs) (auto split: if_splits sum.splits)

lemma is_valid_position_True_height:
  assumes "is_valid_position b p = Inr True"
  shows "py p < height b"
proof -
  obtain x y where xy: "(x, y) \<in> set (get_cells p)" "py p \<le> y"
    using get_cells_nonempty by blast
  from valid_cells_True [OF assms [unfolded is_valid_position_def] xy(1)] xy(2)
  show ?thesis by simp
qed

text \<open>The \<open>while\<close> loop of \<open>get_drop_position\<close>.  It ends because a valid piece has a
  cell, and every cell of a valid piece lies above the bottom edge.\<close>

function drop_loop :: "board \<Rightarrow> piece \<Rightarrow> py_error + piece" where
  "drop_loop b test_piece =
     (case is_valid_position b test_piece of Inl e \<Rightarrow> Inl e
      | Inr ok \<Rightarrow>
         if ok then drop_loop b (test_piece\<lparr>py := py test_piece + 1\<rparr>) else Inr test_piece)"
  by pat_completeness auto
termination
proof (relation "measure (\<lambda>(b, t). nat (height b - py t))")
  show "wf (measure (\<lambda>(b, t). nat (height b - py t)))" by simp
next
  fix b :: board and test_piece :: piece and ok :: bool
  assume "is_valid_position b test_piece = Inr ok" and ok
  then have "py test_piece < height b"
    using is_valid_position_True_height by simp
  then show "((b, test_piece\<lparr>py := py test_piece + 1\<rparr>), (b, test_piece))
               \<in> measure (\<lambda>(b, t). nat (height b - py t))"
    by simp
qed

definition get_drop_position :: "board \<Rightarrow> piece \<Rightarrow> py_error + int" where
  "get_drop_position b p =
     (case drop_loop b (copy p) of Inl e \<Rightarrow> Inl e | Inr test_piece \<Rightarrow> Inr (py test_piece - 1))"

definition get_shadow_cells :: "board \<Rightarrow> piece \<Rightarrow> py_error + (int \<times> int) list" where
  "get_shadow_cells b p =
     (case get_drop_position b p of Inl e \<Rightarrow> Inl e
      | Inr y0 \<Rightarrow> Inr (get_cells ((copy p)\<lparr>py := y0\<rparr>)))"

lemma drop_loop_spec:
  "board_wf b \<Longrightarrow>
   \<exists>z. drop_loop b t = Inr (t\<lparr>py := z\<rparr>) \<and> py t \<le> z
           \<and> (\<forall>y'. py t \<le> y' \<and> y' < z \<longrightarrow> is_valid_position b (t\<lparr>py := y'\<rparr>) = Inr True)
           \<and> is_valid_position b (t\<lparr>py := z\<rparr>) = Inr False"
proof (induction b t rule: drop_loop.induct)
  case (1 b t)
  note wf = "1.prems"
  obtain ok where ok: "is_valid_position b t = Inr ok"
    using wf by (simp add: is_valid_position_wf)
  show ?case
  proof (cases ok)
    case False
    have "drop_loop b t = Inr (t\<lparr>py := py t\<rparr>)"
      using ok False by (subst drop_loop.simps) simp
    moreover have "is_valid_position b (t\<lparr>py := py t\<rparr>) = Inr False"
      using ok False by simp
    ultimately show ?thesis by (intro exI [of _ "py t"]) auto
  next
    case True
    let ?t1 = "t\<lparr>py := py t + 1\<rparr>"
    from "1.IH" [OF ok True wf] obtain z where z:
      "drop_loop b ?t1 = Inr (?t1\<lparr>py := z\<rparr>)" "py ?t1 \<le> z"
      "\<forall>y'. py ?t1 \<le> y' \<and> y' < z \<longrightarrow> is_valid_position b (?t1\<lparr>py := y'\<rparr>) = Inr True"
      "is_valid_position b (?t1\<lparr>py := z\<rparr>) = Inr False"
      by blast
    have d: "drop_loop b t = Inr (t\<lparr>py := z\<rparr>)"
      using ok True z(1) by (subst drop_loop.simps) simp
    have "is_valid_position b (t\<lparr>py := y'\<rparr>) = Inr True" if "py t \<le> y' \<and> y' < z" for y'
    proof (cases "y' = py t")
      case True
      then show ?thesis using ok \<open>ok\<close> by simp
    next
      case False
      with that have "py ?t1 \<le> y' \<and> y' < z" by simp
      with z(3) show ?thesis by simp
    qed
    moreover have "py t \<le> z" using z(2) by simp
    moreover have "is_valid_position b (t\<lparr>py := z\<rparr>) = Inr False" using z(4) by simp
    ultimately show ?thesis using d by blast
  qed
qed

text \<open>
  Claim C7, as the code has it.  For a piece whose position is valid on a board whose grid
  has its declared dimensions, \<open>get_drop_position\<close> returns a row \<open>ys \<ge> y\<close> such that the
  piece is valid at every row from \<open>y\<close> to \<open>ys\<close> and invalid at \<open>ys + 1\<close>: the row one step
  before the first invalid position met on the way down, that is the least row \<open>\<ge> y\<close>
  below which the piece cannot move.
\<close>

theorem get_drop_position_spec:
  assumes "board_wf b" and "is_valid_position b p = Inr True"
  shows "\<exists>ys. get_drop_position b p = Inr ys \<and> py p \<le> ys
           \<and> (\<forall>y'. py p \<le> y' \<and> y' \<le> ys \<longrightarrow> is_valid_position b (p\<lparr>py := y'\<rparr>) = Inr True)
           \<and> is_valid_position b (p\<lparr>py := ys + 1\<rparr>) = Inr False"
proof -
  from drop_loop_spec [OF assms(1), of p] obtain z where z:
    "drop_loop b p = Inr (p\<lparr>py := z\<rparr>)" "py p \<le> z"
    "\<forall>y'. py p \<le> y' \<and> y' < z \<longrightarrow> is_valid_position b (p\<lparr>py := y'\<rparr>) = Inr True"
    "is_valid_position b (p\<lparr>py := z\<rparr>) = Inr False"
    by blast
  have "z \<noteq> py p" using z(4) assms(2) by auto
  with z(2) have lt: "py p < z" by simp
  have "get_drop_position b p = Inr (z - 1)"
    using z(1) by (simp add: get_drop_position_def copy_id)
  moreover have "py p \<le> z - 1" using lt by simp
  moreover have "\<forall>y'. py p \<le> y' \<and> y' \<le> z - 1 \<longrightarrow> is_valid_position b (p\<lparr>py := y'\<rparr>) = Inr True"
    using z(3) by simp
  moreover have "is_valid_position b (p\<lparr>py := z - 1 + 1\<rparr>) = Inr False"
    using z(4) by simp
  ultimately show ?thesis by blast
qed

text \<open>A board with an overhang: a horizontal I piece on row 15, columns 0 to 3, rests on
  a vertical I piece in column 2, rows 16 to 19; columns 0 and 1 are empty below row 15.\<close>

definition overhang_board :: board where
  "overhang_board =
     \<lparr>width = 10, height = 20,
      grid = replicate 15 (replicate 10 None)
             @ [replicate 4 (Some Piece_I) @ replicate 6 None]
             @ replicate 4 ((replicate 10 None)[2 := Some Piece_I]),
      cleared_lines = 0\<rparr>"

text \<open>
  Claim C7, as stated, fails.  On the overhang board an O piece at column 0, row 0 drops
  to row 13, yet it is also valid at row 18 and invalid at row 19: the returned row is not
  the greatest row that is valid with an invalid row below it.
\<close>

theorem get_drop_position_not_greatest:
  "is_valid_position overhang_board (BlockDrop Piece_O 0 0) = Inr True
   \<and> get_drop_position overhang_board (BlockDrop Piece_O 0 0) = Inr 13
   \<and> py (BlockDrop Piece_O 0 0) \<le> 18
   \<and> is_valid_position overhang_board ((BlockDrop Piece_O 0 0)\<lparr>py := 18\<rparr>) = Inr True
   \<and> is_valid_position overhang_board ((BlockDrop Piece_O 0 0)\<lparr>py := 18 + 1\<rparr>) = Inr False
   \<and> (13 :: int) < 18"
  by code_simp

theorem get_drop_position_spec_witness:
  "board_wf overhang_board
   \<and> is_valid_position overhang_board (BlockDrop Piece_O 0 0) = Inr True
   \<and> get_drop_position overhang_board (BlockDrop Piece_O 0 0) = Inr 13
   \<and> is_valid_position overhang_board ((BlockDrop Piece_O 0 0)\<lparr>py := 13\<rparr>) = Inr True
   \<and> is_valid_position overhang_board ((BlockDrop Piece_O 0 0)\<lparr>py := 13 + 1\<rparr>) = Inr False"
proof -
  let ?B = overhang_board and ?P = "BlockDrop Piece_O 0 0"
  have w: "board_wf ?B" by code_simp
  have v: "is_valid_position ?B ?P = Inr True" by code_simp
  have g: "get_drop_position ?B ?P = Inr 13" by code_simp
  from get_drop_position_spec [OF w v] g
  have "(\<forall>y'. py ?P \<le> y' \<and> y' \<le> 13 \<longrightarrow> is_valid_position ?B (?P\<lparr>py := y'\<rparr>) = Inr True)
        \<and> is_valid_position ?B (?P\<lparr>py := 13 + 1\<rparr>) = Inr False"
    by auto
  moreover have "py ?P \<le> 13" by (simp add: BlockDrop_def)
  ultimately show ?thesis using w v g by simp
qed

section \<open>Facts about the piece generator\<close>

lemma get_next_piece_nonempty:
  "bag gen \<noteq> [] \<Longrightarrow>
     get_next_piece sh x0 y0 gen
       = Inr (BlockDrop (last (bag gen)) x0 y0, gen\<lparr>bag := butlast (bag gen)\<rparr>)"
  by (simp add: get_next_piece_def py_pop_def)

lemma draws_from_bag:
  "length shs \<le> length (bag gen) \<Longrightarrow>
     draws shs gen
       = Inr (take (length shs) (rev (bag gen)),
              gen\<lparr>bag := take (length (bag gen) - length shs) (bag gen)\<rparr>)"
proof (induction shs arbitrary: gen)
  case Nil
  then show ?case by simp
next
  case (Cons sh shs)
  then have ne: "bag gen \<noteq> []" by auto
  let ?g1 = "gen\<lparr>bag := butlast (bag gen)\<rparr>"
  have l: "length shs \<le> length (bag ?g1)" using Cons.prems by simp
  have r: "rev (bag gen) = last (bag gen) # rev (butlast (bag gen))"
    using ne by (metis append_butlast_last_id rev.simps(2) rev_eq_Cons_iff rev_rev_ident)
  show ?case
    using Cons.IH [OF l] ne
    by (simp add: get_next_piece_nonempty BlockDrop_def r take_butlast butlast_take)
qed

lemma draws_empty_bag:
  "bag gen = [] \<Longrightarrow> draws (sh # shs) gen = draws (sh # shs) (refill_bag sh gen)"
  by (simp add: get_next_piece_def refill_bag_def py_pop_def)

text \<open>
  Claim C8.  Let the bag be freshly refilled by a shuffle that returns a permutation of its
  argument.  Then any \<open>n \<le> 7\<close> consecutive draws succeed and yield \<open>n\<close> distinct kinds (each
  kind at most once), and the kinds drawn together with the kinds left in the bag are the
  seven kinds.  Seven draws yield every kind exactly once and leave the bag empty, so the
  next draw refills it and the following draws are again draws from a fresh bag.
\<close>

theorem bag_draws:
  assumes sh0: "is_shuffle sh0" and "length shs \<le> 7"
  shows "\<exists>ks gen'. draws shs (refill_bag sh0 gen) = Inr (ks, gen')
           \<and> length ks = length shs \<and> distinct ks
           \<and> mset ks + mset (bag gen') = mset PIECE_TYPES
           \<and> (length shs = 7 \<longrightarrow> mset ks = mset PIECE_TYPES \<and> bag gen' = []
                 \<and> (\<forall>k. count (mset ks) k = 1)
                 \<and> (\<forall>sh rest. draws (sh # rest) gen' = draws (sh # rest) (refill_bag sh gen')))"
proof -
  have assms1: "mset (sh0 PIECE_TYPES) = mset PIECE_TYPES"
    using sh0 by (simp add: is_shuffle_def)
  let ?b = "sh0 PIECE_TYPES"
  let ?g = "refill_bag sh0 gen"
  have bg: "bag ?g = ?b" by (simp add: refill_bag_def)
  have len: "length ?b = 7"
    using mset_eq_length [OF assms1] by (simp add: PIECE_TYPES_def)
  have dP: "distinct PIECE_TYPES" by (simp add: PIECE_TYPES_def)
  have d: "distinct ?b" using assms1 dP by (metis distinct_count_atmost_1 mset_eq_setD count_mset_0_iff)
  let ?ks = "take (length shs) (rev ?b)"
  let ?g' = "?g\<lparr>bag := take (length ?b - length shs) ?b\<rparr>"
  have dr: "draws shs ?g = Inr (?ks, ?g')"
    using draws_from_bag [of shs ?g] assms(2) len bg by simp
  have lk: "length ?ks = length shs" using assms(2) len by simp
  have dk: "distinct ?ks" using d by (simp add: distinct_take)
  have "rev ?b = ?ks @ drop (length shs) (rev ?b)" by simp
  moreover have "drop (length shs) (rev ?b) = rev (take (length ?b - length shs) ?b)"
    using assms(2) len by (simp add: rev_take)
  ultimately have "mset (rev ?b) = mset ?ks + mset (take (length ?b - length shs) ?b)"
    by (metis mset_append mset_rev)
  then have ms: "mset ?ks + mset (bag ?g') = mset PIECE_TYPES"
    using assms1 by simp
  have full: "mset ?ks = mset PIECE_TYPES \<and> bag ?g' = [] \<and> (\<forall>k. count (mset ?ks) k = 1)
      \<and> (\<forall>sh rest. draws (sh # rest) ?g' = draws (sh # rest) (refill_bag sh ?g'))"
    if "length shs = 7"
  proof -
    have e: "bag ?g' = []" using that len by simp
    with ms have m: "mset ?ks = mset PIECE_TYPES" by simp
    have "count (mset PIECE_TYPES) k = 1" for k
      by (cases k) (simp_all add: PIECE_TYPES_def)
    moreover have "draws (sh # rest) ?g' = draws (sh # rest) (refill_bag sh ?g')" for sh rest
      using e by (rule draws_empty_bag)
    ultimately show ?thesis using m e by simp
  qed
  from dr lk dk ms full show ?thesis by blast
qed


theorem bag_draws_witness:
  "is_shuffle rev \<and> length (replicate 7 (id :: shuffle)) \<le> 7
   \<and> draws (replicate 7 id) (refill_bag rev \<lparr>bag = []\<rparr>) = Inr (PIECE_TYPES, \<lparr>bag = []\<rparr>)
   \<and> distinct PIECE_TYPES \<and> count (mset PIECE_TYPES) Piece_T = 1"
proof -
  have s: "is_shuffle rev" by (simp add: is_shuffle_def)
  have l: "length (replicate 7 (id :: shuffle)) \<le> 7" by simp
  have e: "draws (replicate 7 id) (refill_bag rev \<lparr>bag = []\<rparr>) = Inr (PIECE_TYPES, \<lparr>bag = []\<rparr>)"
    by code_simp
  from bag_draws [OF s l, of "\<lparr>bag = []\<rparr>"] e
  have "distinct PIECE_TYPES \<and> (\<forall>k. count (mset PIECE_TYPES) k = 1)"
    by auto
  with s l e show ?thesis by simp
qed

section \<open>Dropping, gravity and restart (game.py)\<close>

lemma move_piece_True:
  assumes "move_piece dx dy g = Inr (True, g')"
  shows "\<exists>cp. current_piece g = Some cp \<and> \<not> game_over g \<and> \<not> paused g
           \<and> is_valid_position (board g) (move dx dy cp) = Inr True
           \<and> g' = g\<lparr>current_piece := Some (move dx dy cp)\<rparr>"
  using assms
  by (auto simp: move_piece_def copy_id split: option.splits if_splits sum.splits)

text \<open>The rows left between the current piece and the bottom edge.\<close>

definition drop_room :: "game \<Rightarrow> nat" where
  "drop_room g =
     (case current_piece g of None \<Rightarrow> 0 | Some cp \<Rightarrow> nat (height (board g) - py cp))"

lemma move_down_drop_room:
  assumes "move_piece 0 1 g = Inr (True, g')"
  shows "drop_room g' < drop_room g"
proof -
  from move_piece_True [OF assms] obtain cp where cp:
    "current_piece g = Some cp" "is_valid_position (board g) (move 0 1 cp) = Inr True"
    "g' = g\<lparr>current_piece := Some (move 0 1 cp)\<rparr>"
    by blast
  from is_valid_position_True_height [OF cp(2)] have "py cp + 1 < height (board g)"
    by (simp add: move_def)
  then show ?thesis
    by (simp add: drop_room_def cp(1,3) move_def)
qed

text \<open>The loop \<open>while self.move_piece(0, 1): drop_distance += 1\<close> of \<open>hard_drop\<close>.\<close>

function hard_drop_loop :: "game \<Rightarrow> int \<Rightarrow> py_error + (int \<times> game)" where
  "hard_drop_loop g drop_distance =
     (case move_piece 0 1 g of Inl e \<Rightarrow> Inl e
      | Inr (ok, g1) \<Rightarrow>
         if ok then hard_drop_loop g1 (drop_distance + 1) else Inr (drop_distance, g1))"
  by pat_completeness auto
termination
proof (relation "measure (\<lambda>(g, d). drop_room g)")
  show "wf (measure (\<lambda>(g, d). drop_room g))" by simp
next
  fix g :: game and drop_distance :: int and r :: "bool \<times> game" and ok :: bool and g1 :: game
  assume "move_piece 0 1 g = Inr r" and "(ok, g1) = r" and ok
  then have "move_piece 0 1 g = Inr (True, g1)" by auto
  then have "drop_room g1 < drop_room g" by (rule move_down_drop_room)
  then show "((g1, drop_distance + 1), (g, drop_distance)) \<in> measure (\<lambda>(g, d). drop_room g)"
    by simp
qed

definition hard_drop :: "shuffle \<Rightarrow> (int \<Rightarrow> int) \<Rightarrow> game \<Rightarrow> py_error + game" where
  "hard_drop sh speed g =
     (case current_piece g of
        None \<Rightarrow> Inr g
      | Some cp \<Rightarrow>
          if game_over g \<or> paused g then Inr g
          else (case hard_drop_loop g 0 of Inl e \<Rightarrow> Inl e
                | Inr (drop_distance, g1) \<Rightarrow>
                    lock_piece sh speed (g1\<lparr>score := score g1 + drop_distance * 2\<rparr>)))"

text \<open>\<open>update\<close> reads the clock, \<open>pygame.time.get_ticks()\<close>; the time read is the parameter
  \<open>current_time\<close>.\<close>

definition update :: "int \<Rightarrow> shuffle \<Rightarrow> (int \<Rightarrow> int) \<Rightarrow> game \<Rightarrow> py_error + game" where
  "update current_time sh speed g =
     (if game_over g \<or> paused g then Inr g
      else if current_time - last_fall_time g \<ge> fall_speed g then
        (case move_piece 0 1 g of Inl e \<Rightarrow> Inl e
         | Inr (ok, g1) \<Rightarrow>
            (case (if \<not> ok then lock_piece sh speed g1 else Inr g1) of Inl e \<Rightarrow> Inl e
             | Inr g2 \<Rightarrow> Inr (g2\<lparr>last_fall_time := current_time\<rparr>)))
      else Inr g)"

definition restart_game :: "shuffle \<Rightarrow> game \<Rightarrow> py_error + game" where
  "restart_game sh g =
     (case spawn_new_piece sh
             (g\<lparr>board := clear_board (board g), score := 0, level := 1, lines_cleared := 0,
                game_over := False, paused := False, fall_speed := INITIAL_FALL_SPEED,
                piece_generator := BlockDropGenerator sh\<rparr>) of
        Inl e \<Rightarrow> Inl e
      | Inr g1 \<Rightarrow>
         (case get_next_piece sh 4 0 (piece_generator g1) of Inl e \<Rightarrow> Inl e
          | Inr (np, gen1) \<Rightarrow> Inr (g1\<lparr>next_piece := Some np, piece_generator := gen1\<rparr>)))"

text \<open>The constructor \<open>TetrisGame()\<close>.\<close>

definition TetrisGame :: "shuffle \<Rightarrow> py_error + game" where
  "TetrisGame sh =
     (case spawn_new_piece sh
             \<lparr>board = Board BOARD_WIDTH BOARD_HEIGHT,
              piece_generator = BlockDropGenerator sh,
              current_piece = None, next_piece = None,
              score = 0, level = 1, lines_cleared = 0,
              game_over = False, paused = False,
              last_fall_time = 0, fall_speed = INITIAL_FALL_SPEED,
              last_move_time = 0, move_delay = MOVE_REPEAT_DELAY\<rparr> of
        Inl e \<Rightarrow> Inl e
      | Inr g1 \<Rightarrow>
         (case get_next_piece sh 4 0 (piece_generator g1) of Inl e \<Rightarrow> Inl e
          | Inr (np, gen1) \<Rightarrow> Inr (g1\<lparr>next_piece := Some np, piece_generator := gen1\<rparr>)))"

section \<open>Blocked states\<close>

text \<open>The commands that the input layer and the frame loop issue while a game runs, and
  a run of them in order; \<open>Tick t\<close> is a call of \<open>update\<close> at clock value \<open>t\<close>.\<close>

datatype command = Move int int | Rotate bool | Soft_drop | Hard_drop | Tick int

fun run_command :: "shuffle \<Rightarrow> (int \<Rightarrow> int) \<Rightarrow> command \<Rightarrow> game \<Rightarrow> py_error + game" where
  "run_command sh speed (Move dx dy) g = map_sum id snd (move_piece dx dy g)"
| "run_command sh speed (Rotate clockwise) g = map_sum id snd (rotate_piece clockwise g)"
| "run_command sh speed Soft_drop g = map_sum id snd (soft_drop g)"
| "run_command sh speed Hard_drop g = hard_drop sh speed g"
| "run_command sh speed (Tick t) g = update t sh speed g"

fun run_commands :: "shuffle \<Rightarrow> (int \<Rightarrow> int) \<Rightarrow> command list \<Rightarrow> game \<Rightarrow> py_error + game" where
  "run_commands sh speed [] g = Inr g"
| "run_commands sh speed (c # cs) g =
     (case run_command sh speed c g of Inl e \<Rightarrow> Inl e | Inr g1 \<Rightarrow> run_commands sh speed cs g1)"

lemma move_piece_blocked:
  "current_piece g = None \<or> game_over g \<or> paused g \<Longrightarrow> move_piece dx dy g = Inr (False, g)"
  by (auto simp: move_piece_def split: option.splits)

lemma rotate_piece_blocked:
  "current_piece g = None \<or> game_over g \<or> paused g \<Longrightarrow> rotate_piece cw g = Inr (False, g)"
  by (auto simp: rotate_piece_def split: option.splits)

lemma soft_drop_blocked:
  "current_piece g = None \<or> game_over g \<or> paused g \<Longrightarrow> soft_drop g = Inr (False, g)"
  by (simp add: soft_drop_def move_piece_blocked)

lemma hard_drop_blocked:
  "current_piece g = None \<or> game_over g \<or> paused g \<Longrightarrow> hard_drop sh speed g = Inr g"
  by (auto simp: hard_drop_def split: option.splits)

lemma update_blocked: "game_over g \<or> paused g \<Longrightarrow> update t sh speed g = Inr g"
  by (auto simp: update_def)

lemma update_no_piece:
  "current_piece g = None \<Longrightarrow>
     update t sh speed g = Inr g \<or> update t sh speed g = Inr (g\<lparr>last_fall_time := t\<rparr>)"
  by (simp add: update_def move_piece_blocked lock_piece_def)

lemma run_commands_blocked:
  "game_over g \<or> paused g \<Longrightarrow> run_commands sh speed cs g = Inr g"
proof (induction cs)
  case Nil
  then show ?case by simp
next
  case (Cons c cs)
  then have "run_command sh speed c g = Inr g"
    by (cases c)
      (simp_all add: move_piece_blocked rotate_piece_blocked soft_drop_blocked
         hard_drop_blocked update_blocked)
  with Cons show ?case by simp
qed

lemma shape_cells_bounds:
  "list_all (\<lambda>sh. list_all (\<lambda>(c, r). 0 \<le> c \<and> c \<le> 3 \<and> 0 \<le> r \<and> r \<le> 3) (shape_cells sh))
     (SHAPES k)"
  by (cases k; hypsubst_thin; code_simp)

lemma get_cells_bounds:
  assumes "(x, y) \<in> set (get_cells p)"
  shows "px p \<le> x \<and> x \<le> px p + 3 \<and> py p \<le> y \<and> y \<le> py p + 3"
proof -
  from assms obtain c r where cr: "(c, r) \<in> set (shape_cells (current_shape p))"
    "x = px p + c" "y = py p + r"
    by (auto simp: get_cells_shape)
  from shape_cells_bounds [of "piece_type p"] current_shape_in_SHAPES [of p] cr(1)
  have "0 \<le> c \<and> c \<le> 3 \<and> 0 \<le> r \<and> r \<le> 3"
    by (auto simp: list_all_iff)
  with cr(2,3) show ?thesis by simp
qed

lemma board_wf_clear_board: "board_wf (clear_board b)"
  by (simp add: board_wf_def clear_board_def list_all_iff)

lemma valid_on_cleared_board:
  assumes "width b = BOARD_WIDTH" "height b = BOARD_HEIGHT" "px p = 4" "py p = 0"
  shows "is_valid_position (clear_board b) p = Inr True"
proof -
  have "\<not> blocked (clear_board b) c" if "c \<in> set (get_cells p)" for c
  proof -
    obtain x y where c: "c = (x, y)" by (cases c)
    from get_cells_bounds [of x y p] that c assms(3,4)
    have r: "4 \<le> x \<and> x \<le> 7 \<and> 0 \<le> y \<and> y \<le> 3" by simp
    then have "nat y < 20" "nat x < 10" by linarith+
    then have "replicate 20 (replicate 10 (None :: kind option)) ! nat y ! nat x = None"
      by simp
    then show ?thesis
      using assms(1,2) r
      by (simp add: c blocked_def clear_board_def BOARD_WIDTH_def BOARD_HEIGHT_def)
  qed
  then show ?thesis
    by (auto simp: is_valid_position_wf [OF board_wf_clear_board])
qed

lemma restart_game_unblocks:
  assumes sh: "is_shuffle sh"
    and dims: "width (board g) = BOARD_WIDTH" "height (board g) = BOARD_HEIGHT"
  shows "\<exists>g'. restart_game sh g = Inr g' \<and> \<not> game_over g' \<and> \<not> paused g'
           \<and> current_piece g' \<noteq> None \<and> score g' = 0 \<and> level g' = 1
           \<and> board g' = clear_board (board g)"
proof -
  let ?bag = "sh PIECE_TYPES"
  have "mset ?bag = mset PIECE_TYPES" using sh by (simp add: is_shuffle_def)
  then have "length ?bag = 7"
    using mset_eq_length [of ?bag PIECE_TYPES] by (simp add: PIECE_TYPES_def)
  then have ne: "?bag \<noteq> []" "butlast ?bag \<noteq> []" "butlast (butlast ?bag) \<noteq> []"
    by (auto simp: length_0_conv [symmetric] simp del: length_0_conv)
  have v1: "is_valid_position (clear_board (board g)) (np\<lparr>px := BOARD_WIDTH div 2 - 1, py := 0\<rparr>)
              = Inr True" for np
    by (rule valid_on_cleared_board) (simp_all add: dims clear_board_def BOARD_WIDTH_def)
  have v2: "is_valid_position (clear_board (board g)) (BlockDrop k (BOARD_WIDTH div 2 - 1) 0)
              = Inr True" for k
    by (rule valid_on_cleared_board) (simp_all add: dims clear_board_def BOARD_WIDTH_def BlockDrop_def)
  show ?thesis
  proof (cases "next_piece g")
    case None
    then show ?thesis
      using ne v2
      by (simp add: restart_game_def spawn_new_piece_def BlockDropGenerator_def refill_bag_def
            get_next_piece_nonempty)
  next
    case (Some np)
    then show ?thesis
      using ne v1
      by (simp add: restart_game_def spawn_new_piece_def BlockDropGenerator_def refill_bag_def
            get_next_piece_nonempty)
  qed
qed

text \<open>A game that has ended: the standard empty board, a T piece in play, \<open>game_over\<close>
  set.\<close>

definition ended_game :: game where
  "ended_game =
     \<lparr>board = Board BOARD_WIDTH BOARD_HEIGHT,
      piece_generator = \<lparr>bag = [Piece_S, Piece_Z]\<rparr>,
      current_piece = Some (BlockDrop Piece_T 4 5),
      next_piece = Some (BlockDrop Piece_O 4 0),
      score = 120, level = 1, lines_cleared = 1,
      game_over = True, paused = False,
      last_fall_time = 0, fall_speed = INITIAL_FALL_SPEED,
      last_move_time = 0, move_delay = MOVE_REPEAT_DELAY\<rparr>"

text \<open>
  Claim C6.  When there is no current piece, or the game is over, or it is paused,
  \<open>move_piece\<close>, \<open>rotate_piece\<close> and \<open>soft_drop\<close> return \<open>False\<close> and \<open>hard_drop\<close> returns
  (it has no result value), each leaving the whole state as it was; \<open>update\<close> leaves the
  current piece, the board, the score, the level and the two flags as they were.  When the
  game is over or paused \<open>update\<close> returns at once with the state unchanged, and so does
  every run of these commands: they stay blocked.  \<open>restart_game\<close> on a board of the
  standard size, with a shuffle that permutes, ends the blocked state: the new state is
  neither over nor paused and has a current piece.
\<close>

theorem blocked_operations:
  assumes "current_piece g = None \<or> game_over g \<or> paused g"
  shows "move_piece dx dy g = Inr (False, g)
     \<and> rotate_piece clockwise g = Inr (False, g)
     \<and> soft_drop g = Inr (False, g)
     \<and> hard_drop sh speed g = Inr g
     \<and> (\<exists>g'. update t sh speed g = Inr g' \<and> current_piece g' = current_piece g
            \<and> board g' = board g \<and> score g' = score g \<and> level g' = level g
            \<and> game_over g' = game_over g \<and> paused g' = paused g)
     \<and> (game_over g \<or> paused g \<longrightarrow>
           update t sh speed g = Inr g \<and> run_commands sh speed cs g = Inr g)
     \<and> (is_shuffle sh \<and> width (board g) = BOARD_WIDTH \<and> height (board g) = BOARD_HEIGHT \<longrightarrow>
           (\<exists>g'. restart_game sh g = Inr g' \<and> \<not> game_over g' \<and> \<not> paused g'
               \<and> current_piece g' \<noteq> None))"
proof -
  have u: "\<exists>g'. update t sh speed g = Inr g' \<and> current_piece g' = current_piece g
            \<and> board g' = board g \<and> score g' = score g \<and> level g' = level g
            \<and> game_over g' = game_over g \<and> paused g' = paused g"
  proof (cases "game_over g \<or> paused g")
    case True
    then show ?thesis by (simp add: update_blocked)
  next
    case False
    with assms have "current_piece g = None" by simp
    from update_no_piece [OF this, of t sh speed] show ?thesis by auto
  qed
  have r: "\<exists>g'. restart_game sh g = Inr g' \<and> \<not> game_over g' \<and> \<not> paused g'
               \<and> current_piece g' \<noteq> None"
    if "is_shuffle sh \<and> width (board g) = BOARD_WIDTH \<and> height (board g) = BOARD_HEIGHT"
    using restart_game_unblocks [of sh g] that by blast
  show ?thesis
    using assms u r
    by (simp add: move_piece_blocked rotate_piece_blocked soft_drop_blocked hard_drop_blocked
          update_blocked run_commands_blocked)
qed

theorem blocked_operations_witness:
  "game_over ended_game
   \<and> move_piece (- 1) 0 ended_game = Inr (False, ended_game)
   \<and> rotate_piece True ended_game = Inr (False, ended_game)
   \<and> soft_drop ended_game = Inr (False, ended_game)
   \<and> hard_drop rev (\<lambda>l. 500) ended_game = Inr ended_game
   \<and> update 1000 rev (\<lambda>l. 500) ended_game = Inr ended_game
   \<and> run_commands rev (\<lambda>l. 500) [Move 1 0, Rotate False, Soft_drop, Hard_drop, Tick 1000]
        ended_game = Inr ended_game"
proof -
  have g: "game_over ended_game" by (simp add: ended_game_def)
  then have "current_piece ended_game = None \<or> game_over ended_game \<or> paused ended_game"
    by simp
  from blocked_operations [OF this] g show ?thesis by simp
qed

section \<open>Rotation with wall kicks\<close>

lemma is_valid_position_Inr: "board_wf b \<Longrightarrow> \<exists>ok. is_valid_position b p = Inr ok"
  by (simp add: is_valid_position_wf)

lemma px_rotate_dir [simp]: "px (rotate_dir cw p) = px p"
  by (simp add: rotate_dir_def rotate_clockwise_def rotate_counterclockwise_def)

lemma wall_kicks_find:
  assumes "board_wf (board g)" "px tp = px cp" "tp = rotate_dir cw cp"
  shows "wall_kicks cw g cp tp dxs
           = (case find (\<lambda>dx. is_valid_position (board g) (tp\<lparr>px := px cp + dx\<rparr>) = Inr True) dxs of
                None \<Rightarrow> Inr (False, g)
              | Some dx \<Rightarrow> Inr (True, g\<lparr>current_piece := Some (tp\<lparr>px := px cp + dx\<rparr>)\<rparr>))"
proof (induction dxs)
  case Nil
  then show ?case by simp
next
  case (Cons dx dxs)
  obtain ok where ok: "is_valid_position (board g) (tp\<lparr>px := px cp + dx\<rparr>) = Inr ok"
    using is_valid_position_Inr [OF assms(1)] by blast
  have reset: "tp\<lparr>px := px cp\<rparr> = tp"
    using assms(2) by simp
  show ?case
  proof (cases ok)
    case True
    with ok show ?thesis using assms(3) by simp
  next
    case False
    with ok Cons.IH show ?thesis by (simp add: reset)
  qed
qed

text \<open>
  Claim C4.  In a running game on a board whose grid has its declared dimensions,
  \<open>rotate_piece\<close> tries the rotated piece at the horizontal offsets 0, -1, +1, -2, +2, in
  this order.  At the first offset where the rotated piece is valid it returns \<open>True\<close> and
  the current piece becomes the rotated piece shifted by exactly that offset; nothing
  else in the state changes.  If it is valid at none of them it returns \<open>False\<close> and the
  state, so the position and rotation of the current piece, is unchanged.
\<close>

theorem rotate_piece_wall_kick:
  assumes "board_wf (board g)" and "current_piece g = Some cp"
    and "\<not> game_over g" and "\<not> paused g"
  shows "rotate_piece clockwise g
           = (case find (\<lambda>dx. is_valid_position (board g)
                                ((rotate_dir clockwise cp)\<lparr>px := px cp + dx\<rparr>) = Inr True)
                        [0, - 1, 1, - 2, 2] of
                None \<Rightarrow> Inr (False, g)
              | Some dx \<Rightarrow>
                  Inr (True, g\<lparr>current_piece :=
                               Some ((rotate_dir clockwise cp)\<lparr>px := px cp + dx\<rparr>)\<rparr>))"
proof -
  let ?tp = "rotate_dir clockwise cp"
  obtain ok where ok: "is_valid_position (board g) ?tp = Inr ok"
    using is_valid_position_Inr [OF assms(1)] by blast
  have "?tp\<lparr>px := px ?tp\<rparr> = ?tp" by simp
  then have same: "?tp\<lparr>px := px cp\<rparr> = ?tp"
    by (simp only: px_rotate_dir)
  show ?thesis
  proof (cases ok)
    case True
    then show ?thesis
      using ok assms(2,3,4) by (simp add: rotate_piece_def copy_id same)
  next
    case False
    have "rotate_piece clockwise g = wall_kicks clockwise g cp ?tp [- 1, 1, - 2, 2]"
      using ok False assms(2,3,4) by (simp add: rotate_piece_def copy_id)
    also have "\<dots> = (case find (\<lambda>dx. is_valid_position (board g) (?tp\<lparr>px := px cp + dx\<rparr>) = Inr True)
                            [- 1, 1, - 2, 2] of
                None \<Rightarrow> Inr (False, g)
              | Some dx \<Rightarrow> Inr (True, g\<lparr>current_piece := Some (?tp\<lparr>px := px cp + dx\<rparr>)\<rparr>))"
      by (rule wall_kicks_find [OF assms(1)]) simp_all
    finally show ?thesis
      using ok False by (simp add: same)
  qed
qed

text \<open>A T piece upright against the left wall of the empty standard board.\<close>

definition wall_game :: game where
  "wall_game =
     \<lparr>board = Board BOARD_WIDTH BOARD_HEIGHT,
      piece_generator = \<lparr>bag = [Piece_S, Piece_Z]\<rparr>,
      current_piece = Some \<lparr>piece_type = Piece_T, px = - 1, py = 5, rotation = 3\<rparr>,
      next_piece = Some (BlockDrop Piece_O 4 0),
      score = 0, level = 1, lines_cleared = 0,
      game_over = False, paused = False,
      last_fall_time = 0, fall_speed = INITIAL_FALL_SPEED,
      last_move_time = 0, move_delay = MOVE_REPEAT_DELAY\<rparr>"

theorem rotate_piece_wall_kick_witness:
  "board_wf (board wall_game)
   \<and> current_piece wall_game = Some \<lparr>piece_type = Piece_T, px = - 1, py = 5, rotation = 3\<rparr>
   \<and> \<not> game_over wall_game \<and> \<not> paused wall_game
   \<and> is_valid_position (board wall_game)
        \<lparr>piece_type = Piece_T, px = - 1, py = 5, rotation = 0\<rparr> = Inr False
   \<and> is_valid_position (board wall_game)
        \<lparr>piece_type = Piece_T, px = - 2, py = 5, rotation = 0\<rparr> = Inr False
   \<and> rotate_piece True wall_game
       = Inr (True, wall_game\<lparr>current_piece :=
                      Some \<lparr>piece_type = Piece_T, px = 0, py = 5, rotation = 0\<rparr>\<rparr>)"
proof -
  let ?cp = "\<lparr>piece_type = Piece_T, px = - 1, py = 5, rotation = 3\<rparr>"
  have w: "board_wf (board wall_game)" by code_simp
  have c: "current_piece wall_game = Some ?cp" by (simp add: wall_game_def)
  have a: "\<not> game_over wall_game" "\<not> paused wall_game" by (simp_all add: wall_game_def)
  have r: "rotate_dir True ?cp = \<lparr>piece_type = Piece_T, px = - 1, py = 5, rotation = 0\<rparr>"
    by (simp add: rotate_dir_def rotate_clockwise_def shapes_def)
  have v0: "is_valid_position (board wall_game)
              \<lparr>piece_type = Piece_T, px = - 1, py = 5, rotation = 0\<rparr> = Inr False"
    by code_simp
  have v1: "is_valid_position (board wall_game)
              \<lparr>piece_type = Piece_T, px = - 2, py = 5, rotation = 0\<rparr> = Inr False"
    by code_simp
  have v2: "is_valid_position (board wall_game)
              \<lparr>piece_type = Piece_T, px = 0, py = 5, rotation = 0\<rparr> = Inr True"
    by code_simp
  have "rotate_piece True wall_game
       = Inr (True, wall_game\<lparr>current_piece :=
                      Some \<lparr>piece_type = Piece_T, px = 0, py = 5, rotation = 0\<rparr>\<rparr>)"
    using rotate_piece_wall_kick [OF w c a, of True] by (simp add: r v0 v1 v2)
  with w c a v0 v1 show ?thesis by simp
qed

section \<open>Locking and scoring\<close>

lemma get_next_piece_ok:
  assumes "is_shuffle sh"
  shows "\<exists>p gen'. get_next_piece sh x0 y0 gen = Inr (p, gen')"
proof -
  have "mset (sh PIECE_TYPES) = mset PIECE_TYPES" using assms by (simp add: is_shuffle_def)
  then have "length (sh PIECE_TYPES) = 7"
    using mset_eq_length [of "sh PIECE_TYPES" PIECE_TYPES] by (simp add: PIECE_TYPES_def)
  then have "sh PIECE_TYPES \<noteq> []" by auto
  then show ?thesis
    by (simp add: get_next_piece_def py_pop_def refill_bag_def Let_def)
qed

lemma spawn_new_piece_ok:
  assumes "is_shuffle sh" "board_wf (board g)"
  shows "\<exists>g'. spawn_new_piece sh g = Inr g' \<and> score g' = score g \<and> level g' = level g
           \<and> board g' = board g \<and> lines_cleared g' = lines_cleared g"
proof -
  obtain cp gen1 where 1:
    "(case next_piece g of
        Some np \<Rightarrow> Inr (np\<lparr>px := BOARD_WIDTH div 2 - 1, py := 0\<rparr>, piece_generator g)
      | None \<Rightarrow> get_next_piece sh (BOARD_WIDTH div 2 - 1) 0 (piece_generator g))
     = Inr (cp, gen1)"
    using get_next_piece_ok [OF assms(1), of "BOARD_WIDTH div 2 - 1" 0 "piece_generator g"]
    by (cases "next_piece g") auto
  obtain np gen2 where 2: "get_next_piece sh 4 0 gen1 = Inr (np, gen2)"
    using get_next_piece_ok [OF assms(1)] by blast
  obtain ok where 3: "is_valid_position (board g) cp = Inr ok"
    using is_valid_position_Inr [OF assms(2)] by blast
  show ?thesis
    by (simp add: spawn_new_piece_def 1 2 3)
qed

lemma is_game_over_ok:
  assumes "board_wf b" "0 < height b"
  shows "\<exists>over. is_game_over b = Inr over"
proof -
  have "0 < int (length (grid b))" using assms by (simp add: board_wf_def)
  then have "py_get (grid b) 0 = Inr (grid b ! nat 0)"
    by (intro py_get_in_range) simp_all
  then show ?thesis by (simp add: is_game_over_def)
qed

lemma count_complete_rows:
  "length (filter (\<lambda>r. row_complete (g ! r)) [0..<length g]) = length (filter row_complete g)"
proof -
  have "filter row_complete (map (\<lambda>r. g ! r) [0..<length g])
          = map (\<lambda>r. g ! r) (filter (\<lambda>r. row_complete (g ! r)) [0..<length g])"
    by (simp add: filter_map comp_def)
  then have "length (filter row_complete (map (\<lambda>r. g ! r) [0..<length g]))
          = length (filter (\<lambda>r. row_complete (g ! r)) [0..<length g])"
    by simp
  then show ?thesis by (simp add: map_nth)
qed

text \<open>The base award of \<open>update_score\<close> as a function of the number of lines.\<close>

definition base_score :: "int \<Rightarrow> int" where
  "base_score n =
     (if n = 1 then 100 else if n = 2 then 300 else if n = 3 then 500
      else if n = 4 then 800 else 0)"

lemma score_update_score: "score (update_score n g) = score g + base_score n * level g"
  by (simp add: update_score_def base_score_def SCORE_SINGLE_def SCORE_DOUBLE_def
        SCORE_TRIPLE_def SCORE_TETRIS_def)

lemma update_level_fields [simp]:
  "score (update_level speed g) = score g" "board (update_level speed g) = board g"
  by (simp_all add: update_level_def Let_def)

lemma update_score_fields [simp]:
  "board (update_score n g) = board g" "level (update_score n g) = level g"
  by (simp_all add: update_score_def Let_def)

lemma place_piece_ok:
  assumes "board_wf b"
  shows "\<exists>placed b'. place_piece b p = Inr (placed, b') \<and> board_wf b'
           \<and> width b' = width b \<and> height b' = height b"
proof -
  obtain ok where ok: "is_valid_position b p = Inr ok"
    using is_valid_position_Inr [OF assms] by blast
  show ?thesis
  proof (cases ok)
    case True
    from place_cells_wf [OF assms, of "piece_type p" "get_cells p"] obtain b' where
      "place_cells b (piece_type p) (get_cells p) = Inr b'" "board_wf b'"
      "width b' = width b" "height b' = height b"
      by blast
    with ok True show ?thesis by (auto simp: place_piece_def)
  next
    case False
    with ok assms show ?thesis by (auto simp: place_piece_def)
  qed
qed

text \<open>
  Claim C5.  In a game with a current piece, on a board with at least one row whose grid
  has its declared dimensions, and with a shuffle that permutes, \<open>lock_piece\<close> returns.
  With \<open>n\<close> the number \<open>clear_lines\<close> returns, which is the number of completed rows of the
  board after the piece is placed, the score grows by the base award for \<open>n\<close> (100, 300,
  500, 800 for 1, 2, 3, 4 and 0 otherwise) times the level the game had when \<open>lock_piece\<close>
  was called: 800 for four lines at level 1 and 1600 at level 2.
\<close>

theorem lock_piece_score:
  assumes "board_wf (board g)" and "0 < height (board g)"
    and "current_piece g = Some cp" and "is_shuffle sh"
  shows "\<exists>placed b1 n b2 g'.
           place_piece (board g) cp = Inr (placed, b1)
         \<and> clear_lines b1 = Inr (n, b2)
         \<and> n = int (length (filter row_complete (grid b1)))
         \<and> lock_piece sh speed g = Inr g'
         \<and> score g' = score g
              + (if n = 1 then 100 else if n = 2 then 300 else if n = 3 then 500
                 else if n = 4 then 800 else 0) * level g
         \<and> (n = 0 \<longrightarrow> score g' = score g)
         \<and> (n = 4 \<and> level g = 1 \<longrightarrow> score g' = score g + 800)
         \<and> (n = 4 \<and> level g = 2 \<longrightarrow> score g' = score g + 1600)"
proof -
  obtain placed b1 where pp: "place_piece (board g) cp = Inr (placed, b1)"
    and wf1: "board_wf b1" and h1: "height b1 = height (board g)"
    using place_piece_ok [OF assms(1), of cp] by blast
  let ?n = "int (length (filter row_complete (grid b1)))"
  obtain b2 where cl: "clear_lines b1 = Inr (?n, b2)"
    and wf2: "board_wf b2" and h2: "height b2 = height b1"
  proof -
    have "length (grid b1) = nat (height b1)" using wf1 by (simp add: board_wf_def)
    then have "length (filter (\<lambda>r. row_complete (grid b1 ! r)) [0..<nat (height b1)])
                 = length (filter row_complete (grid b1))"
      using count_complete_rows [of "grid b1"] by simp
    with clear_lines_wf [OF wf1] that show ?thesis by auto
  qed
  let ?g1 = "g\<lparr>board := b2\<rparr>"
  let ?g2 = "if ?n > 0
             then update_level speed (update_score ?n (?g1\<lparr>lines_cleared := lines_cleared ?g1 + ?n\<rparr>))
             else ?g1"
  have b2: "board ?g2 = b2" by simp
  have sc: "score ?g2 = score g + base_score ?n * level g"
    by (simp add: score_update_score base_score_def)
  obtain over where ov: "is_game_over (board ?g2) = Inr over"
    using is_game_over_ok [of b2] wf2 h2 h1 assms(2) unfolding b2 by auto
  have "\<exists>g'. lock_piece sh speed g = Inr g' \<and> score g' = score ?g2"
  proof (cases over)
    case True
    have "lock_piece sh speed g = Inr (?g2\<lparr>game_over := True\<rparr>)"
      using assms(3) pp cl ov True by (simp add: lock_piece_def Let_def)
    then show ?thesis by simp
  next
    case False
    have wfg2: "board_wf (board ?g2)" unfolding b2 by (rule wf2)
    from spawn_new_piece_ok [OF assms(4) wfg2] obtain g' where
      g': "spawn_new_piece sh ?g2 = Inr g'" "score g' = score ?g2"
      by blast
    have "lock_piece sh speed g = Inr g'"
      using assms(3) pp cl ov False g'(1) by (simp add: lock_piece_def Let_def)
    with g'(2) show ?thesis by simp
  qed
  then obtain g' where g': "lock_piece sh speed g = Inr g'" "score g' = score ?g2" by blast
  have s: "score g' = score g + base_score ?n * level g"
    using g'(2) sc by simp
  show ?thesis
    using pp cl g'(1) s by (auto simp: base_score_def)
qed


text \<open>A game one piece away from four lines: rows 16 to 19 of the standard board are
  full except for column 9, and a vertical I piece stands in column 9 on the floor.\<close>

definition tetris_game :: game where
  "tetris_game =
     \<lparr>board = \<lparr>width = 10, height = 20,
               grid = replicate 16 (replicate 10 None)
                      @ replicate 4 (replicate 9 (Some Piece_O) @ [None]),
               cleared_lines = 0\<rparr>,
      piece_generator = \<lparr>bag = [Piece_S, Piece_Z]\<rparr>,
      current_piece = Some \<lparr>piece_type = Piece_I, px = 7, py = 16, rotation = 1\<rparr>,
      next_piece = Some (BlockDrop Piece_O 4 0),
      score = 0, level = 1, lines_cleared = 0,
      game_over = False, paused = False,
      last_fall_time = 0, fall_speed = INITIAL_FALL_SPEED,
      last_move_time = 0, move_delay = MOVE_REPEAT_DELAY\<rparr>"

theorem lock_piece_score_witness:
  "board_wf (board tetris_game) \<and> 0 < height (board tetris_game)
   \<and> current_piece tetris_game = Some \<lparr>piece_type = Piece_I, px = 7, py = 16, rotation = 1\<rparr>
   \<and> is_shuffle rev
   \<and> map_sum id score (lock_piece rev (\<lambda>l. 500) tetris_game) = Inr 800
   \<and> map_sum id score (lock_piece rev (\<lambda>l. 500) (tetris_game\<lparr>level := 2\<rparr>)) = Inr 1600"
proof -
  let ?cp = "\<lparr>piece_type = Piece_I, px = 7, py = 16, rotation = 1\<rparr>"
  let ?g2 = "tetris_game\<lparr>level := 2\<rparr>"
  have w: "board_wf (board tetris_game)" by code_simp
  have h: "0 < height (board tetris_game)" by (simp add: tetris_game_def)
  have c: "current_piece tetris_game = Some ?cp" by (simp add: tetris_game_def)
  have s: "is_shuffle rev" by (simp add: is_shuffle_def)
  have four: "map_sum id (\<lambda>(placed, b1). length (filter row_complete (grid b1)))
                (place_piece (board tetris_game) ?cp) = Inr 4"
    by code_simp
  have l: "level tetris_game = 1" "score tetris_game = 0" by (simp_all add: tetris_game_def)
  have 1: "map_sum id score (lock_piece rev (\<lambda>l. 500) tetris_game) = Inr 800"
    using lock_piece_score [OF w h c s, of "\<lambda>l. 500"] four l by auto
  have w2: "board_wf (board ?g2)" using w by simp
  have h2: "0 < height (board ?g2)" using h by simp
  have c2: "current_piece ?g2 = Some ?cp" using c by simp
  have four2: "map_sum id (\<lambda>(placed, b1). length (filter row_complete (grid b1)))
                (place_piece (board ?g2) ?cp) = Inr 4"
    using four by simp
  have l2: "level ?g2 = 2" "score ?g2 = 0" using l by simp_all
  have 2: "map_sum id score (lock_piece rev (\<lambda>l. 500) ?g2) = Inr 1600"
    using lock_piece_score [OF w2 h2 c2 s, of "\<lambda>l. 500"] four2 l2 by auto
  from w h c s 1 2 show ?thesis by simp
qed

end
